theory Spec2Isabelle
  imports Complex_Main "HOL-Library.Sublist" "HOL-Library.Multiset"
begin

section \<open>Python text primitives used by the agent and the viewer\<close>

text \<open>
  A Python \<open>str\<close> is modelled as a \<open>string\<close>; a \<open>char\<close> stands for one code point in
  the range 0..255. Text beyond that range is outside the model.
\<close>

text \<open>\<open>str.lower()\<close> on one code point: A-Z and the Latin-1 capitals move up by 32.\<close>

definition lower_char :: "char \<Rightarrow> char" where
  "lower_char c =
     (let n = (of_char c :: nat)
      in if (65 \<le> n \<and> n \<le> 90) \<or> (192 \<le> n \<and> n \<le> 222 \<and> n \<noteq> 215)
         then char_of (n + 32) else c)"

definition lower :: "string \<Rightarrow> string" where
  "lower s = map lower_char s"

text \<open>\<open>sep.join(xs)\<close>.\<close>

fun join :: "string \<Rightarrow> string list \<Rightarrow> string" where
  "join sep [] = []"
| "join sep [x] = x"
| "join sep (x # y # ys) = x @ sep @ join sep (y # ys)"

text \<open>\<open>s.startswith(p)\<close>, and the operator \<open>p in s\<close> on strings: a scan for the first
  position where \<open>p\<close> starts.\<close>

fun startswith :: "string \<Rightarrow> string \<Rightarrow> bool" where
  "startswith s [] = True"
| "startswith [] (p # ps) = False"
| "startswith (c # cs) (p # ps) = (c = p \<and> startswith cs ps)"

fun str_in :: "string \<Rightarrow> string \<Rightarrow> bool" where
  "str_in p [] = (p = [])"
| "str_in p (c # cs) = (startswith (c # cs) p \<or> str_in p cs)"

section \<open>The agent: signatures and the matcher\<close>

text \<open>A signature is a \<open>dict\<close> from field names to strings; \<open>d.get(k, default)\<close>.\<close>

type_synonym signature = "string \<rightharpoonup> string"

definition dict_get :: "('k \<rightharpoonup> 'v) \<Rightarrow> 'k \<Rightarrow> 'v \<Rightarrow> 'v" where
  "dict_get d k dflt = (case d k of None \<Rightarrow> dflt | Some v \<Rightarrow> v)"

text \<open>
  One entry of \<open>psutil.process_iter(["pid", "name", "cmdline", "username"])\<close>: the
  \<open>info\<close> dict. A field psutil could not read is \<open>None\<close>.
\<close>

record proc_info =
  pid :: int
  name :: "string option"
  cmdline :: "string list option"
  username :: "string option"

text \<open>\<open>x or default\<close> for an optional string or list: \<open>None\<close> and the empty value
  both give the default.\<close>

definition or_else :: "'a list option \<Rightarrow> 'a list \<Rightarrow> 'a list" where
  "or_else x dflt = (case x of None \<Rightarrow> dflt | Some v \<Rightarrow> (if v = [] then dflt else v))"

definition match_signature :: "signature \<Rightarrow> proc_info \<Rightarrow> bool" where
  "match_signature sig info =
     (let pname = lower (or_else (name info) []);
          cmdline_list = or_else (cmdline info) [];
          cmdline_str = lower (join '' '' cmdline_list);
          pattern = lower (dict_get sig ''pattern'' []);
          mtype = dict_get sig ''match_type'' []
      in if pattern = [] \<or> mtype = [] then False
         else if mtype = ''process_name_contains'' then str_in pattern pname
         else if mtype = ''cmdline_contains'' then str_in pattern cmdline_str
         else False)"

text \<open>
  The matcher as the specification words it: case-insensitive substring containment,
  with a missing field read as empty. \<open>sublist p s\<close> is containment of \<open>p\<close> as a
  contiguous part of \<open>s\<close>.
\<close>

definition matches_spec :: "signature \<Rightarrow> proc_info \<Rightarrow> bool" where
  "matches_spec sig snap =
     (let pat = (case sig ''pattern'' of None \<Rightarrow> [] | Some p \<Rightarrow> p);
          kind = sig ''match_type'';
          pname = (case name snap of None \<Rightarrow> [] | Some s \<Rightarrow> s);
          args = (case cmdline snap of None \<Rightarrow> [] | Some l \<Rightarrow> l)
      in pat \<noteq> [] \<and>
         ((kind = Some ''process_name_contains'' \<and> sublist (lower pat) (lower pname)) \<or>
          (kind = Some ''cmdline_contains'' \<and> sublist (lower pat) (lower (join '' '' args)))))"

section \<open>JSON values and \<open>json.dumps\<close>\<close>

text \<open>
  The value of a Python \<open>float\<close>: a finite number, an infinity or \<open>nan\<close>.
\<close>

datatype fnum = Fin real | PInf | NInf | NaN

text \<open>
  The values \<open>json.loads\<close> returns and \<open>json.dumps\<close> takes: \<open>None\<close>, booleans,
  integers, floats, strings, lists, and dicts with string keys in insertion order.
  A float is held with its value and the text \<open>str\<close> gives for it. Integers are
  taken within the 4300 digits Python converts to and from text.
\<close>

datatype json =
  JNull
| JBool bool
| JInt int
| JFloat fnum string
| JStr string
| JArr "json list"
| JObj "(string \<times> json) list"

text \<open>\<open>str(n)\<close> for an integer.\<close>

definition digit_char :: "nat \<Rightarrow> char" where
  "digit_char d = ''0123456789abcdef'' ! d"

fun str_nat :: "nat \<Rightarrow> string" where
  "str_nat n = (if n < 10 then [digit_char n] else str_nat (n div 10) @ [digit_char (n mod 10)])"

declare str_nat.simps [simp del]

definition str_int :: "int \<Rightarrow> string" where
  "str_int i = (if i < 0 then CHR ''-'' # str_nat (nat (- i)) else str_nat (nat i))"

text \<open>
  String escaping of \<open>json.dumps(..., ensure_ascii=False)\<close>: the quote, the backslash
  and the control characters below 0x20 are escaped, everything else is copied.
\<close>

definition escape_char :: "char \<Rightarrow> string" where
  "escape_char c =
     (if c = CHR 0x22 then [CHR 0x5C, CHR 0x22]
      else if c = CHR 0x5C then [CHR 0x5C, CHR 0x5C]
      else if c = CHR 0x0A then [CHR 0x5C, CHR ''n'']
      else if c = CHR 0x0D then [CHR 0x5C, CHR ''r'']
      else if c = CHR 0x09 then [CHR 0x5C, CHR ''t'']
      else if c = CHR 0x08 then [CHR 0x5C, CHR ''b'']
      else if c = CHR 0x0C then [CHR 0x5C, CHR ''f'']
      else if (of_char c :: nat) < 32
        then [CHR 0x5C, CHR ''u'', CHR ''0'', CHR ''0'',
              digit_char (of_char c div 16), digit_char (of_char c mod 16)]
      else [c])"

definition encode_string :: "string \<Rightarrow> string" where
  "encode_string s = CHR 0x22 # concat (map escape_char s) @ [CHR 0x22]"

text \<open>The encoder with its default separators \<open>", "\<close> and \<open>": "\<close>.\<close>

fun json_dumps :: "json \<Rightarrow> string"
  and dumps_items :: "json list \<Rightarrow> string"
  and dumps_members :: "(string \<times> json) list \<Rightarrow> string" where
  "json_dumps JNull = ''null''"
| "json_dumps (JBool b) = (if b then ''true'' else ''false'')"
| "json_dumps (JInt i) = str_int i"
| "json_dumps (JFloat x s) =
     (case x of Fin r \<Rightarrow> s | PInf \<Rightarrow> ''Infinity'' | NInf \<Rightarrow> ''-Infinity'' | NaN \<Rightarrow> ''NaN'')"
| "json_dumps (JStr s) = encode_string s"
| "json_dumps (JArr xs) = ''['' @ dumps_items xs @ '']''"
| "json_dumps (JObj kvs) = ''{'' @ dumps_members kvs @ ''}''"
| "dumps_items [] = []"
| "dumps_items [x] = json_dumps x"
| "dumps_items (x # y # ys) = json_dumps x @ '', '' @ dumps_items (y # ys)"
| "dumps_members [] = []"
| "dumps_members [(k, v)] = encode_string k @ '': '' @ json_dumps v"
| "dumps_members ((k, v) # kv # kvs) =
     encode_string k @ '': '' @ json_dumps v @ '', '' @ dumps_members (kv # kvs)"

section \<open>\<open>json.loads\<close> on the encoder's grammar\<close>

text \<open>
  The decoder on the JSON forms an event record is written in: \<open>null\<close>, \<open>true\<close>,
  \<open>false\<close>, integers, strings, arrays and objects, with JSON whitespace between
  tokens. \<open>None\<close> is a \<open>JSONDecodeError\<close>. Three kinds of input are outside this
  definition, which gives \<open>None\<close> for them as well: a number with a fraction or an
  exponent and the constants \<open>NaN\<close> and \<open>Infinity\<close> (floats), a \<open>\u\<close> escape above
  0xFF, and input on which the library raises another exception (nesting beyond the
  recursion limit, an integer of more than 4300 digits). The viewer below does not
  use this definition: it takes \<open>json.loads\<close> as a parameter.
\<close>

definition is_json_ws :: "char \<Rightarrow> bool" where
  "is_json_ws c = (c = CHR '' '' \<or> c = CHR 0x09 \<or> c = CHR 0x0A \<or> c = CHR 0x0D)"

definition skip_ws :: "string \<Rightarrow> string" where
  "skip_ws s = dropWhile is_json_ws s"

definition hex_val :: "char \<Rightarrow> nat option" where
  "hex_val c =
     (let n = (of_char c :: nat)
      in if 48 \<le> n \<and> n \<le> 57 then Some (n - 48)
         else if 97 \<le> n \<and> n \<le> 102 then Some (n - 87)
         else if 65 \<le> n \<and> n \<le> 70 then Some (n - 55)
         else None)"

definition unescape :: "char \<Rightarrow> char option" where
  "unescape c =
     (if c = CHR 0x22 then Some (CHR 0x22)
      else if c = CHR 0x5C then Some (CHR 0x5C)
      else if c = CHR ''/'' then Some (CHR ''/'')
      else if c = CHR ''b'' then Some (CHR 0x08)
      else if c = CHR ''f'' then Some (CHR 0x0C)
      else if c = CHR ''n'' then Some (CHR 0x0A)
      else if c = CHR ''r'' then Some (CHR 0x0D)
      else if c = CHR ''t'' then Some (CHR 0x09)
      else None)"

text \<open>\<open>scanstring\<close>, from just after the opening quote: the string and the rest of
  the input after the closing quote.\<close>

fun scanstring :: "string \<Rightarrow> (string \<times> string) option" where
  "scanstring [] = None"
| "scanstring (c # cs) =
     (if c = CHR 0x22 then Some ([], cs)
      else if c = CHR 0x5C then
        (case cs of
           [] \<Rightarrow> None
         | esc # r \<Rightarrow>
             if esc = CHR ''u'' then
               (case r of
                  h3 # h2 # h1 # h0 # r' \<Rightarrow>
                    (case (hex_val h3, hex_val h2, hex_val h1, hex_val h0) of
                       (Some x3, Some x2, Some x1, Some x0) \<Rightarrow>
                         (let n = ((x3 * 16 + x2) * 16 + x1) * 16 + x0
                          in if n < 256
                             then (case scanstring r' of
                                     None \<Rightarrow> None
                                   | Some (str, rest) \<Rightarrow> Some (char_of n # str, rest))
                             else None)
                     | _ \<Rightarrow> None)
                | _ \<Rightarrow> None)
             else
               (case unescape esc of
                  None \<Rightarrow> None
                | Some ch \<Rightarrow>
                    (case scanstring r of
                       None \<Rightarrow> None
                     | Some (str, rest) \<Rightarrow> Some (ch # str, rest))))
      else if (of_char c :: nat) < 32 then None
      else (case scanstring cs of
              None \<Rightarrow> None
            | Some (str, rest) \<Rightarrow> Some (c # str, rest)))"

text \<open>An integer: \<open>-?(0|[1-9][0-9]*)\<close>.\<close>

definition is_digit :: "char \<Rightarrow> bool" where
  "is_digit c = (48 \<le> (of_char c :: nat) \<and> (of_char c :: nat) \<le> 57)"

definition nat_of_digits :: "string \<Rightarrow> nat" where
  "nat_of_digits ds = foldl (\<lambda>a d. 10 * a + (of_char d - 48)) 0 ds"

definition scan_nat :: "string \<Rightarrow> (nat \<times> string) option" where
  "scan_nat s =
     (case s of
        [] \<Rightarrow> None
      | c # cs \<Rightarrow>
          if c = CHR ''0'' then Some (0, cs)
          else if is_digit c
            then Some (nat_of_digits (c # takeWhile is_digit cs), dropWhile is_digit cs)
          else None)"

definition scan_int :: "string \<Rightarrow> (json \<times> string) option" where
  "scan_int s =
     (case s of
        [] \<Rightarrow> None
      | c # cs \<Rightarrow>
          if c = CHR ''-''
            then (case scan_nat cs of None \<Rightarrow> None | Some (n, rest) \<Rightarrow> Some (JInt (- int n), rest))
          else (case scan_nat s of None \<Rightarrow> None | Some (n, rest) \<Rightarrow> Some (JInt (int n), rest)))"

text \<open>\<open>dict(pairs)\<close>: a later pair with the same key replaces the value, in place.\<close>

fun dict_set :: "string \<Rightarrow> json \<Rightarrow> (string \<times> json) list \<Rightarrow> (string \<times> json) list" where
  "dict_set k v [] = [(k, v)]"
| "dict_set k v ((k', v') # rest) =
     (if k' = k then (k', v) # rest else (k', v') # dict_set k v rest)"

definition dict_of :: "(string \<times> json) list \<Rightarrow> (string \<times> json) list" where
  "dict_of pairs = foldl (\<lambda>d (k, v). dict_set k v d) [] pairs"

text \<open>
  The scanner. The first argument bounds the number of nested and successive values
  still to be read; \<open>json_loads\<close> starts it above the length of the input.
  \<open>scan_items\<close> reads the items of an array from its first item, \<open>scan_members\<close> the
  members of an object from the quote of its first key.
\<close>

fun scan_value :: "nat \<Rightarrow> string \<Rightarrow> (json \<times> string) option"
  and scan_items :: "nat \<Rightarrow> string \<Rightarrow> (json list \<times> string) option"
  and scan_members :: "nat \<Rightarrow> string \<Rightarrow> ((string \<times> json) list \<times> string) option" where
  "scan_value 0 s = None"
| "scan_value (Suc fuel) s =
     (case s of
        [] \<Rightarrow> None
      | c # cs \<Rightarrow>
          if c = CHR 0x22 then
            (case scanstring cs of None \<Rightarrow> None | Some (str, rest) \<Rightarrow> Some (JStr str, rest))
          else if c = CHR ''{'' then
            (case skip_ws cs of
               [] \<Rightarrow> None
             | d # ds \<Rightarrow>
                 if d = CHR ''}'' then Some (JObj [], ds)
                 else (case scan_members fuel (d # ds) of
                         None \<Rightarrow> None
                       | Some (pairs, rest) \<Rightarrow> Some (JObj (dict_of pairs), rest)))
          else if c = CHR ''['' then
            (case skip_ws cs of
               [] \<Rightarrow> None
             | d # ds \<Rightarrow>
                 if d = CHR '']'' then Some (JArr [], ds)
                 else (case scan_items fuel (d # ds) of
                         None \<Rightarrow> None
                       | Some (vs, rest) \<Rightarrow> Some (JArr vs, rest)))
          else if c = CHR ''n'' then
            (if startswith s ''null'' then Some (JNull, drop 4 s) else None)
          else if c = CHR ''t'' then
            (if startswith s ''true'' then Some (JBool True, drop 4 s) else None)
          else if c = CHR ''f'' then
            (if startswith s ''false'' then Some (JBool False, drop 5 s) else None)
          else scan_int s)"
| "scan_items 0 s = None"
| "scan_items (Suc fuel) s =
     (case scan_value fuel s of
        None \<Rightarrow> None
      | Some (v, rest) \<Rightarrow>
          (case skip_ws rest of
             [] \<Rightarrow> None
           | d # ds \<Rightarrow>
               if d = CHR '']'' then Some ([v], ds)
               else if d = CHR '','' then
                 (case scan_items fuel (skip_ws ds) of
                    None \<Rightarrow> None
                  | Some (vs, rest') \<Rightarrow> Some (v # vs, rest'))
               else None))"
| "scan_members 0 s = None"
| "scan_members (Suc fuel) s =
     (case s of
        [] \<Rightarrow> None
      | q # cs \<Rightarrow>
          if q \<noteq> CHR 0x22 then None
          else
            (case scanstring cs of
               None \<Rightarrow> None
             | Some (k, r1) \<Rightarrow>
                 (case skip_ws r1 of
                    [] \<Rightarrow> None
                  | colon # r2 \<Rightarrow>
                      if colon \<noteq> CHR '':'' then None
                      else
                        (case scan_value fuel (skip_ws r2) of
                           None \<Rightarrow> None
                         | Some (v, r3) \<Rightarrow>
                             (case skip_ws r3 of
                                [] \<Rightarrow> None
                              | d # ds \<Rightarrow>
                                  if d = CHR ''}'' then Some ([(k, v)], ds)
                                  else if d = CHR '','' then
                                    (case scan_members fuel (skip_ws ds) of
                                       None \<Rightarrow> None
                                     | Some (pairs, rest) \<Rightarrow> Some ((k, v) # pairs, rest))
                                  else None)))))"

definition json_loads :: "string \<Rightarrow> json option" where
  "json_loads s =
     (case scan_value (Suc (length s)) (skip_ws s) of
        None \<Rightarrow> None
      | Some (v, rest) \<Rightarrow> if skip_ws rest = [] then Some v else None)"

section \<open>The agent: one scan cycle\<close>

text \<open>
  What the agent cannot decide: the value of the clock at each call of
  \<open>utc_now_iso\<close>; whether each operation on the log file (an \<open>open\<close>, a \<open>write\<close>
  or the \<open>close\<close> on leaving the \<open>with\<close> block) fails with an \<open>OSError\<close>, and with
  which message; and, when an operation fails, how much of the text still held by
  the file object reaches the disk.
\<close>

record env =
  clock :: "nat \<Rightarrow> string"
  io_fault :: "nat \<Rightarrow> string option"
  io_partial :: "nat \<Rightarrow> nat"

text \<open>
  What the agent changes. \<open>seen\<close> is the dedup set. \<open>logfile_text\<close> is the text
  of the log file on disk. \<open>buffer\<close> is the text passed to \<open>f.write\<close> on the open file
  object that is not on disk yet: writes are buffered, and the text reaches the disk
  when the file object is closed. \<open>accepted\<close> lists, over the whole run, the strings
  for which \<open>f.write\<close> returned normally. \<open>stdout\<close> is the console. \<open>now_calls\<close> and
  \<open>io_calls\<close> count the clock reads and the file operations made so far.
\<close>

record world =
  seen :: "(int \<times> string) set"
  logfile_text :: string
  buffer :: string
  accepted :: "string list"
  stdout :: "string list"
  now_calls :: nat
  io_calls :: nat








text \<open>The \<open>event\<close> dict of \<open>scan_once\<close>, in the order its keys are written.\<close>

definition event :: "string \<Rightarrow> string \<Rightarrow> proc_info \<Rightarrow> signature \<Rightarrow> json" where
  "event ts hostname info sig =
     JObj [(''timestamp_utc'', JStr ts),
           (''hostname'', JStr hostname),
           (''username'', JStr (or_else (username info) ''unknown'')),
           (''pid'', JInt (pid info)),
           (''process_name'', JStr (or_else (name info) [])),
           (''cmdline'', JArr (map JStr (or_else (cmdline info) []))),
           (''signature_name'', (case sig ''name'' of None \<Rightarrow> JNull | Some s \<Rightarrow> JStr s)),
           (''signature_description'',
              (case sig ''description'' of None \<Rightarrow> JNull | Some s \<Rightarrow> JStr s)),
           (''risk'', JStr (dict_get sig ''risk'' ''unknown'')),
           (''category'', JStr (dict_get sig ''category'' ''unknown'')),
           (''version'', JStr ''v0.1''),
           (''product'', JStr ''Red Specter AI Usage Watchdog'')]"


text \<open>The line written for an event: \<open>json.dumps(event, ensure_ascii=False) + "\n"\<close>.\<close>

definition record_line :: "json \<Rightarrow> string" where
  "record_line evt = json_dumps evt @ [CHR 0x0A]"








section \<open>The viewer: loading the log\<close>

text \<open>\<open>str.strip()\<close>: the whitespace code points below 256.\<close>

definition is_space :: "char \<Rightarrow> bool" where
  "is_space c = ((of_char c :: nat) \<in> {9, 10, 11, 12, 13, 28, 29, 30, 31, 32, 133, 160})"

definition strip :: "string \<Rightarrow> string" where
  "strip s = rev (dropWhile is_space (rev (dropWhile is_space s)))"

text \<open>
  The exceptions that leave the viewer. \<open>LoadError\<close> stands for every exception that
  leaves \<open>load_events\<close>: a \<open>UnicodeDecodeError\<close> from reading the file, and an
  exception of \<open>json.loads\<close> that is not a \<open>JSONDecodeError\<close> (a \<open>RecursionError\<close> on
  deep nesting, a \<open>ValueError\<close> on an integer of more than 4300 digits). The file is
  decoded in blocks ahead of the line being processed, so which of them is raised
  when several lines fail does not follow the order of the lines; the model does not
  tell them apart.
\<close>

datatype verr = AttributeError | TypeError | LoadError

text \<open>
  A line of the file as iterating over it meets it: text, or bytes that are not
  UTF-8 (a line cut inside a multi-byte character, say), on which reading raises.
\<close>

datatype line = Text string | Undecodable

text \<open>
  \<open>json.loads\<close> is library code: it is the parameter \<open>loads\<close>, whose result is a
  value, a \<open>JSONDecodeError\<close>, or another exception.
\<close>

datatype loaded = Loaded json | JSONDecodeError | OtherException

text \<open>
  \<open>load_events\<close>. The file is \<open>None\<close> when the path does not exist, and otherwise
  its lines. Only a \<open>JSONDecodeError\<close> is caught. The result is the console output
  and the list of events, or the exception. A file that exists and cannot be opened
  is outside the model.
\<close>

fun read_lines :: "(string \<Rightarrow> loaded) \<Rightarrow> line list \<Rightarrow> verr + json list" where
  "read_lines loads [] = Inr []"
| "read_lines loads (Undecodable # rest) = Inl LoadError"
| "read_lines loads (Text l # rest) =
     (let line = strip l
      in if line = [] then read_lines loads rest
         else (case loads line of
                 Loaded evt \<Rightarrow>
                   (case read_lines loads rest of
                      Inl x \<Rightarrow> Inl x
                    | Inr events \<Rightarrow> Inr (evt # events))
               | JSONDecodeError \<Rightarrow> read_lines loads rest
               | OtherException \<Rightarrow> Inl LoadError))"

definition load_events ::
  "(string \<Rightarrow> loaded) \<Rightarrow> string \<Rightarrow> line list option \<Rightarrow> string list \<times> (verr + json list)" where
  "load_events loads logfile file =
     (case file of
        None \<Rightarrow> ([''[!] Log file does not exist: '' @ logfile], Inr [])
      | Some lines \<Rightarrow> ([], read_lines loads lines))"

section \<open>The viewer: the summary\<close>

text \<open>\<open>evt.get(key, default)\<close>: only a dict has \<open>get\<close>.\<close>

definition evt_get :: "json \<Rightarrow> string \<Rightarrow> json \<Rightarrow> verr + json" where
  "evt_get evt k dflt =
     (case evt of
        JObj kvs \<Rightarrow> Inr (case map_of kvs k of None \<Rightarrow> dflt | Some v \<Rightarrow> v)
      | _ \<Rightarrow> Inl AttributeError)"

text \<open>
  What a value is as the key of a dict: two values are the same key when they are
  equal in Python's sense. \<open>True\<close> is 1 and \<open>False\<close> is 0, an integer and a float of
  the same number are equal, and the one \<open>nan\<close> object \<open>json.loads\<close> returns is found
  by identity. Lists and dicts are unhashable: they have no key.
\<close>

datatype hkey = KNone | KNum fnum | KStr string

fun key_of :: "json \<Rightarrow> hkey option" where
  "key_of JNull = Some KNone"
| "key_of (JBool b) = Some (KNum (Fin (if b then 1 else 0)))"
| "key_of (JInt i) = Some (KNum (Fin (real_of_int i)))"
| "key_of (JFloat x s) = Some (KNum x)"
| "key_of (JStr s) = Some (KStr s)"
| "key_of (JArr xs) = None"
| "key_of (JObj kvs) = None"

definition hashable :: "json \<Rightarrow> bool" where
  "hashable v = (key_of v \<noteq> None)"

text \<open>
  A \<open>Counter\<close>: its items in the order their keys were first counted. Counting a
  value whose key is already there adds to that item and keeps the value first
  seen. \<open>counter_get\<close> is \<open>counter[v]\<close>.
\<close>

fun counter_add :: "json \<Rightarrow> (json \<times> nat) list \<Rightarrow> (json \<times> nat) list" where
  "counter_add v [] = [(v, 1)]"
| "counter_add v ((k, n) # rest) =
     (if key_of k = key_of v then (k, Suc n) # rest else (k, n) # counter_add v rest)"

fun counter_get :: "(json \<times> nat) list \<Rightarrow> json \<Rightarrow> nat" where
  "counter_get [] v = 0"
| "counter_get ((k, n) # rest) v = (if key_of k = key_of v then n else counter_get rest v)"

text \<open>\<open>Counter(evt.get(field, "unknown") for evt in events)\<close>, counting onto \<open>c\<close>.\<close>

fun count_field :: "string \<Rightarrow> json list \<Rightarrow> (json \<times> nat) list \<Rightarrow> verr + (json \<times> nat) list" where
  "count_field field [] c = Inr c"
| "count_field field (evt # evts) c =
     (case evt_get evt field (JStr ''unknown'') of
        Inl x \<Rightarrow> Inl x
      | Inr v \<Rightarrow> if hashable v then count_field field evts (counter_add v c) else Inl TypeError)"

text \<open>
  \<open>Counter.most_common(n)\<close>: the items by descending count, items of equal count in
  the order they were first counted, cut to the first \<open>n\<close>.
\<close>

definition most_common :: "int \<Rightarrow> (json \<times> nat) list \<Rightarrow> (json \<times> nat) list" where
  "most_common n counter = take (nat n) (sort_key (\<lambda>(item, cnt). - int cnt) counter)"

text \<open>
  A \<open>datetime\<close>: its wall-clock reading in microseconds and its UTC offset, \<open>None\<close>
  for a naive value. \<open>datetime.fromisoformat\<close> and \<open>datetime.isoformat\<close> are library
  code: the parameters \<open>fromiso\<close> (\<open>None\<close> where it raises) and \<open>isoformat\<close>.
\<close>

record datetime =
  wall :: int
  utcoffset :: "int option"

definition replace_Z :: "string \<Rightarrow> string" where
  "replace_Z s = concat (map (\<lambda>c. if c = CHR ''Z'' then ''+00:00'' else [c]) s)"

definition parse_ts :: "(string \<Rightarrow> datetime option) \<Rightarrow> json \<Rightarrow> datetime option" where
  "parse_ts fromiso ts =
     (case ts of
        JStr s \<Rightarrow> if s = [] then None else fromiso (replace_Z s)
      | _ \<Rightarrow> None)"

text \<open>\<open>a < b\<close> on datetimes: a naive and an aware value do not compare.\<close>

definition dt_less :: "datetime \<Rightarrow> datetime \<Rightarrow> verr + bool" where
  "dt_less a b =
     (case (utcoffset a, utcoffset b) of
        (None, None) \<Rightarrow> Inr (wall a < wall b)
      | (Some oa, Some ob) \<Rightarrow> Inr (wall a - oa < wall b - ob)
      | _ \<Rightarrow> Inl TypeError)"

text \<open>\<open>min\<close> and \<open>max\<close> of a non-empty list: the first extreme item is kept.\<close>

fun min_from :: "datetime \<Rightarrow> datetime list \<Rightarrow> verr + datetime" where
  "min_from m [] = Inr m"
| "min_from m (x # xs) =
     (case dt_less x m of Inl e \<Rightarrow> Inl e | Inr b \<Rightarrow> min_from (if b then x else m) xs)"

fun max_from :: "datetime \<Rightarrow> datetime list \<Rightarrow> verr + datetime" where
  "max_from m [] = Inr m"
| "max_from m (x # xs) =
     (case dt_less m x of Inl e \<Rightarrow> Inl e | Inr b \<Rightarrow> max_from (if b then x else m) xs)"

text \<open>The list \<open>timestamps\<close>: the timestamps that parse, in the order of the events.\<close>

fun timestamps_of :: "(string \<Rightarrow> datetime option) \<Rightarrow> json list \<Rightarrow> verr + datetime list" where
  "timestamps_of fromiso [] = Inr []"
| "timestamps_of fromiso (evt # evts) =
     (case evt_get evt ''timestamp_utc'' JNull of
        Inl x \<Rightarrow> Inl x
      | Inr ts \<Rightarrow>
          (case timestamps_of fromiso evts of
             Inl x \<Rightarrow> Inl x
           | Inr rest \<Rightarrow>
               Inr (case parse_ts fromiso ts of None \<Rightarrow> rest | Some t \<Rightarrow> t # rest)))"

text \<open>The separator of the two ends of the time range, as the bytes of the source file.\<close>

definition range_sep :: string where
  "range_sep = ''  '' @ [CHR 0xC3, CHR 0xA2, CHR 0xE2, CHR 0x80, CHR 0xA0, CHR 0xE2, CHR 0x80, CHR 0x99]
     @ ''  ''"

definition time_range :: "(datetime \<Rightarrow> string) \<Rightarrow> datetime list \<Rightarrow> verr + string" where
  "time_range isoformat timestamps =
     (case timestamps of
        [] \<Rightarrow> Inr ''unknown''
      | t # ts \<Rightarrow>
          (case min_from t ts of
             Inl x \<Rightarrow> Inl x
           | Inr first_ts \<Rightarrow>
               (case max_from t ts of
                  Inl x \<Rightarrow> Inl x
                | Inr last_ts \<Rightarrow> Inr (isoformat first_ts @ range_sep @ isoformat last_ts))))"

definition observed_range ::
  "(string \<Rightarrow> datetime option) \<Rightarrow> (datetime \<Rightarrow> string) \<Rightarrow> json list \<Rightarrow> verr + string" where
  "observed_range fromiso isoformat events =
     (case timestamps_of fromiso events of
        Inl x \<Rightarrow> Inl x
      | Inr timestamps \<Rightarrow> time_range isoformat timestamps)"

text \<open>
  The format \<open>{item:30}\<close>: a string is padded on the right, a number on the left,
  a boolean as the number 1 or 0; \<open>None\<close>, a list and a dict take no format width.
\<close>

definition rjust :: "string \<Rightarrow> string" where
  "rjust s = replicate (30 - length s) CHR '' '' @ s"

fun format_item :: "json \<Rightarrow> verr + string" where
  "format_item (JStr s) = Inr (s @ replicate (30 - length s) CHR '' '')"
| "format_item (JInt i) = Inr (rjust (str_int i))"
| "format_item (JBool b) = Inr (rjust (if b then ''1'' else ''0''))"
| "format_item (JFloat x s) = Inr (rjust s)"
| "format_item v = Inl TypeError"

text \<open>Console output: the lines printed, and the exception that ended the printing.\<close>

fun print_rows :: "(json \<times> nat) list \<Rightarrow> verr option \<times> string list" where
  "print_rows [] = (None, [])"
| "print_rows ((item, cnt) # rest) =
     (case format_item item of
        Inl x \<Rightarrow> (Some x, [])
      | Inr s \<Rightarrow>
          (case print_rows rest of
             (x, out) \<Rightarrow> (x, (''  '' @ s @ '' '' @ str_nat cnt) # out)))"

definition print_counter :: "string \<Rightarrow> (json \<times> nat) list \<Rightarrow> int \<Rightarrow> verr option \<times> string list" where
  "print_counter title counter topn =
     (if counter = [] then (None, [title @ '':'', ''  (none)'', []])
      else (case print_rows (most_common topn counter) of
              (Some x, out) \<Rightarrow> (Some x, (title @ '':'') # out)
            | (None, out) \<Rightarrow> (None, (title @ '':'') # out @ [[]])))"

text \<open>Printing in sequence: what follows an exception is not printed.\<close>

definition and_then ::
  "verr option \<times> string list \<Rightarrow> verr option \<times> string list \<Rightarrow> verr option \<times> string list" where
  "and_then a b =
     (case a of
        (Some x, out) \<Rightarrow> (Some x, out)
      | (None, out) \<Rightarrow> (fst b, out @ snd b))"

definition print_summary ::
  "(string \<Rightarrow> datetime option) \<Rightarrow> (datetime \<Rightarrow> string) \<Rightarrow> json list \<Rightarrow> int
     \<Rightarrow> verr option \<times> string list" where
  "print_summary fromiso isoformat events top_n =
     (if events = [] then (None, [''[+] No events found in log.''])
      else
       (case count_field ''risk'' events [] of Inl x \<Rightarrow> (Some x, []) | Inr risks \<Rightarrow>
       (case count_field ''signature_name'' events [] of Inl x \<Rightarrow> (Some x, []) | Inr signatures \<Rightarrow>
       (case count_field ''username'' events [] of Inl x \<Rightarrow> (Some x, []) | Inr users \<Rightarrow>
       (case count_field ''hostname'' events [] of Inl x \<Rightarrow> (Some x, []) | Inr hosts \<Rightarrow>
       (case observed_range fromiso isoformat events of Inl x \<Rightarrow> (Some x, []) | Inr rng \<Rightarrow>
          and_then
            (None,
             [''=============================================='',
              '' Red Specter - AI Usage Watchdog: Log Summary'',
              ''=============================================='',
              ''Total events : '' @ str_nat (length events),
              ''Time range   : '' @ rng,
              []])
         (and_then (print_counter ''By risk'' risks top_n)
         (and_then (print_counter ''By signature'' signatures top_n)
         (and_then (print_counter ''By user'' users top_n)
                   (print_counter ''By host'' hosts top_n))))))))))"

text \<open>\<open>print_events\<close> and the viewer's \<open>main\<close>.\<close>

definition print_events :: "json list \<Rightarrow> string list" where
  "print_events events = map json_dumps events"

definition view_main ::
  "(string \<Rightarrow> loaded) \<Rightarrow> (string \<Rightarrow> datetime option) \<Rightarrow> (datetime \<Rightarrow> string)
     \<Rightarrow> string \<Rightarrow> int \<Rightarrow> bool \<Rightarrow> line list option \<Rightarrow> verr option \<times> string list" where
  "view_main loads fromiso isoformat logfile top_n show_events file =
     (case load_events loads logfile file of
        (out, Inl x) \<Rightarrow> (Some x, (''[+] Reading events from: '' @ logfile) # out)
      | (out, Inr events) \<Rightarrow>
          and_then (None, (''[+] Reading events from: '' @ logfile) # out)
            (and_then (print_summary fromiso isoformat events top_n)
               (None, if show_events
                        then ''---------- Raw events ----------'' # print_events events
                      else [])))"

section \<open>Notions used to state the properties of the agent\<close>

text \<open>
  \<open>json_loads\<close> as a value for the viewer's parameter, for input on which its
  \<open>None\<close> is a \<open>JSONDecodeError\<close>.
\<close>

definition loads_of :: "(string \<Rightarrow> json option) \<Rightarrow> string \<Rightarrow> loaded" where
  "loads_of f s = (case f s of Some v \<Rightarrow> Loaded v | None \<Rightarrow> JSONDecodeError)"

text \<open>The dedup key an event record stands for: its \<open>pid\<close> and \<open>signature_name\<close>.\<close>

definition event_key :: "json \<Rightarrow> (int \<times> string) option" where
  "event_key evt =
     (case evt of
        JObj kvs \<Rightarrow>
          (case (map_of kvs ''pid'', map_of kvs ''signature_name'') of
             (Some (JInt p), Some (JStr nm)) \<Rightarrow> Some (p, nm)
           | _ \<Rightarrow> None)
      | _ \<Rightarrow> None)"

definition records_for :: "int \<times> string \<Rightarrow> json list \<Rightarrow> json list" where
  "records_for key events = filter (\<lambda>evt. event_key evt = Some key) events"

text \<open>
  The event records in a list of strings written to the log, each read back as the
  viewer reads a line.
\<close>

definition records_of :: "string list \<Rightarrow> json list" where
  "records_of written =
     (case read_lines (loads_of json_loads) (map Text written) of
        Inl x \<Rightarrow> []
      | Inr events \<Rightarrow> events)"

text \<open>
  The strings a stretch of the run has written: those \<open>f.write\<close> accepted from state
  \<open>w\<close> to state \<open>w'\<close>; and the text the log file gained on disk in that stretch.
\<close>

definition written :: "world \<Rightarrow> world \<Rightarrow> string list" where
  "written w w' = drop (length (accepted w)) (accepted w')"

definition gained :: "world \<Rightarrow> world \<Rightarrow> string" where
  "gained w w' = drop (length (logfile_text w)) (logfile_text w')"

text \<open>No operation on the log file fails from state \<open>w\<close> on.\<close>

definition healthy :: "env \<Rightarrow> world \<Rightarrow> bool" where
  "healthy e w = (\<forall>k\<ge>io_calls w. io_fault e k = None)"

text \<open>A value of the model that is a Python value: the keys of every dict differ.\<close>

fun py_value :: "json \<Rightarrow> bool"
  and py_items :: "json list \<Rightarrow> bool"
  and py_members :: "(string \<times> json) list \<Rightarrow> bool" where
  "py_value (JArr xs) = py_items xs"
| "py_value (JObj kvs) = (distinct (map fst kvs) \<and> py_members kvs)"
| "py_value v = True"
| "py_items [] = True"
| "py_items (x # xs) = (py_value x \<and> py_items xs)"
| "py_members [] = True"
| "py_members ((k, v) # kvs) = (py_value v \<and> py_members kvs)"

text \<open>A value without floats: what the decoder \<open>json_loads\<close> has values for.\<close>

fun no_float :: "json \<Rightarrow> bool"
  and no_float_items :: "json list \<Rightarrow> bool"
  and no_float_members :: "(string \<times> json) list \<Rightarrow> bool" where
  "no_float (JFloat x s) = False"
| "no_float (JArr xs) = no_float_items xs"
| "no_float (JObj kvs) = no_float_members kvs"
| "no_float v = True"
| "no_float_items [] = True"
| "no_float_items (x # xs) = (no_float x \<and> no_float_items xs)"
| "no_float_members [] = True"
| "no_float_members ((k, v) # kvs) = (no_float v \<and> no_float_members kvs)"

text \<open>The depth of scanning the encoding of a value takes.\<close>

fun need :: "json \<Rightarrow> nat"
  and need_items :: "json list \<Rightarrow> nat"
  and need_members :: "(string \<times> json) list \<Rightarrow> nat" where
  "need (JArr xs) = Suc (need_items xs)"
| "need (JObj kvs) = Suc (need_members kvs)"
| "need v = 1"
| "need_items [] = 0"
| "need_items (x # xs) = Suc (max (need x) (need_items xs))"
| "need_members [] = 0"
| "need_members ((k, v) # kvs) = Suc (max (need v) (need_members kvs))"

text \<open>The characters the encoding of a value without floats can begin with.\<close>

definition starter :: "char \<Rightarrow> bool" where
  "starter c =
     (c \<in> {CHR 0x22, CHR ''{'', CHR ''['', CHR ''n'', CHR ''t'', CHR ''f'', CHR ''-''} \<or> is_digit c)"

section \<open>Notions used to state the properties of the summary\<close>

text \<open>The four fields the summary counts.\<close>

definition summary_fields :: "string list" where
  "summary_fields = [''risk'', ''signature_name'', ''username'', ''hostname'']"

text \<open>An event the four counters accept: a dict whose counted values are hashable.\<close>

definition countable_record :: "json \<Rightarrow> bool" where
  "countable_record evt =
     (\<forall>field\<in>set summary_fields.
        case evt_get evt field (JStr ''unknown'') of Inl x \<Rightarrow> False | Inr v \<Rightarrow> hashable v)"

text \<open>The value of an event that the counter of a field counts.\<close>

definition field_value :: "string \<Rightarrow> json \<Rightarrow> json \<Rightarrow> json" where
  "field_value field dflt evt = (case evt_get evt field dflt of Inl x \<Rightarrow> JNull | Inr v \<Rightarrow> v)"

text \<open>No two items of the counter of a field have the same count.\<close>

definition no_ties :: "string \<Rightarrow> json list \<Rightarrow> bool" where
  "no_ties field events =
     (case count_field field events [] of Inl x \<Rightarrow> True | Inr c \<Rightarrow> distinct (map snd c))"

text \<open>
  The values of a field that are the same key are the same value: the events do not
  hold, say, both \<open>1\<close> and \<open>1.0\<close> in that field.
\<close>

definition one_form :: "string \<Rightarrow> json list \<Rightarrow> bool" where
  "one_form field events =
     (\<forall>u\<in>set events. \<forall>v\<in>set events.
        key_of (field_value field (JStr ''unknown'') u) =
          key_of (field_value field (JStr ''unknown'') v) \<longrightarrow>
        field_value field (JStr ''unknown'') u = field_value field (JStr ''unknown'') v)"

text \<open>All timestamps that parse carry the same UTC offset (or all are naive).\<close>

definition same_offsets :: "(string \<Rightarrow> datetime option) \<Rightarrow> json list \<Rightarrow> bool" where
  "same_offsets fromiso events =
     (case timestamps_of fromiso events of
        Inl x \<Rightarrow> True
      | Inr ts \<Rightarrow> (\<forall>a\<in>set ts. \<forall>b\<in>set ts. utcoffset a = utcoffset b))"

text \<open>
  Counting a list of values onto a counter; and counting by identity of the values,
  which is what \<open>counter_add\<close> does when no two values are the same key.
\<close>

fun tally :: "json list \<Rightarrow> (json \<times> nat) list \<Rightarrow> (json \<times> nat) list" where
  "tally [] c = c"
| "tally (v # vs) c = tally vs (counter_add v c)"

fun counter_add_id :: "json \<Rightarrow> (json \<times> nat) list \<Rightarrow> (json \<times> nat) list" where
  "counter_add_id v [] = [(v, 1)]"
| "counter_add_id v ((k, n) # rest) =
     (if k = v then (k, Suc n) # rest else (k, n) # counter_add_id v rest)"

fun tally_id :: "json list \<Rightarrow> (json \<times> nat) list \<Rightarrow> (json \<times> nat) list" where
  "tally_id [] c = c"
| "tally_id (v # vs) c = tally_id vs (counter_add_id v c)"

section \<open>The matcher meets its specification\<close>

lemma startswith_prefix: "startswith s p = prefix p s"
  by (induction s p rule: startswith.induct) auto

lemma str_in_sublist: "str_in p s = sublist p s"
  by (induction s) (auto simp: startswith_prefix sublist_Cons_right)

lemma lower_Nil_iff: "lower s = [] \<longleftrightarrow> s = []"
  by (simp add: lower_def)

lemma or_else_Nil: "or_else x [] = (case x of None \<Rightarrow> [] | Some v \<Rightarrow> v)"
  by (simp add: or_else_def split: option.splits)

text \<open>
  C1. For every signature and every process snapshot, \<open>match_signature\<close> is the
  specified matcher: true exactly when the pattern is non-empty and, by the match type,
  the lowercased pattern is contained in the lowercased process name or in the
  lowercased command line joined with single spaces. A missing \<open>pattern\<close> or
  \<open>match_type\<close>, an unrecognised match type, and missing snapshot fields are read as
  empty, so the result is then \<open>False\<close> and nothing faults.
\<close>

theorem match_signature_meets_spec:
  "match_signature sig snap = matches_spec sig snap"
  by (auto simp: match_signature_def matches_spec_def Let_def dict_get_def or_else_Nil
      str_in_sublist lower_Nil_iff split: option.splits)

theorem match_signature_meets_spec_witness:
  "matches_spec [''match_type'' \<mapsto> ''process_name_contains'', ''pattern'' \<mapsto> ''ollama'']
     \<lparr>pid = 1234, name = Some ''OLLAMA-server'', cmdline = None, username = None\<rparr> \<and>
   \<not> matches_spec [''match_type'' \<mapsto> ''cmdline_contains'', ''pattern'' \<mapsto> ''llm'']
     \<lparr>pid = 1234, name = Some ''llm'', cmdline = Some [''l'', ''lm''], username = None\<rparr>"
  using match_signature_meets_spec
    [of "[''match_type'' \<mapsto> ''process_name_contains'', ''pattern'' \<mapsto> ''ollama'']"
        "\<lparr>pid = 1234, name = Some ''OLLAMA-server'', cmdline = None, username = None\<rparr>"]
    match_signature_meets_spec
    [of "[''match_type'' \<mapsto> ''cmdline_contains'', ''pattern'' \<mapsto> ''llm'']"
        "\<lparr>pid = 1234, name = Some ''llm'', cmdline = Some [''l'', ''lm''], username = None\<rparr>"]
  by (simp add: match_signature_def dict_get_def or_else_def lower_def lower_char_def
      char_of_eq_iff)

section \<open>The viewer on an absent or empty log\<close>

text \<open>
  C9, as the code has it. When the log file is absent or empty the viewer raises
  nothing and loads no event; \<open>print_summary\<close> then returns at its first test, so the
  whole report is the notice that no events were found (after the notice of a missing
  file). No total and no time range are printed: the range \<open>unknown\<close> belongs to the
  summary block, which is printed only when there is at least one event.
\<close>

theorem absent_or_empty_log:
  "load_events loads logfile None = ([''[!] Log file does not exist: '' @ logfile], Inr []) \<and>
   load_events loads logfile (Some []) = ([], Inr []) \<and>
   print_summary fromiso isoformat [] top_n = (None, [''[+] No events found in log.'']) \<and>
   view_main loads fromiso isoformat logfile top_n show_events None =
     (None, [''[+] Reading events from: '' @ logfile,
             ''[!] Log file does not exist: '' @ logfile,
             ''[+] No events found in log.'']
            @ (if show_events then [''---------- Raw events ----------''] else [])) \<and>
   view_main loads fromiso isoformat logfile top_n show_events (Some []) =
     (None, [''[+] Reading events from: '' @ logfile,
             ''[+] No events found in log.'']
            @ (if show_events then [''---------- Raw events ----------''] else []))"
  by (simp add: load_events_def print_summary_def view_main_def and_then_def print_events_def)

text \<open>
  C9 as the specification words it asks for a total of zero and a time range
  \<open>unknown\<close>. On a missing file, and on an empty one, neither line is printed.
\<close>

theorem absent_log_counterexample:
  "view_main (loads_of json_loads) (\<lambda>s. None) (\<lambda>t. []) ''events.jsonl'' 5 False None =
     (None, [''[+] Reading events from: events.jsonl'',
             ''[!] Log file does not exist: events.jsonl'',
             ''[+] No events found in log.'']) \<and>
   ''Total events : 0'' \<notin>
     set (snd (view_main (loads_of json_loads) (\<lambda>s. None) (\<lambda>t. []) ''events.jsonl'' 5 False None)) \<and>
   ''Time range   : unknown'' \<notin>
     set (snd (view_main (loads_of json_loads) (\<lambda>s. None) (\<lambda>t. []) ''events.jsonl'' 5 False None)) \<and>
   ''Time range   : unknown'' \<notin>
     set (snd (view_main (loads_of json_loads) (\<lambda>s. None) (\<lambda>t. []) ''events.jsonl'' 5 False (Some [])))"
  by (simp add: load_events_def print_summary_def view_main_def and_then_def print_events_def)

section \<open>The viewer on damaged logs\<close>

text \<open>
  A line that \<open>json.loads\<close> rejects with a \<open>JSONDecodeError\<close> is skipped, for every
  decoder: the result of loading, and so the viewer's whole result, is that for the
  log without the line.
\<close>

lemma json_decode_error_skipped:
  assumes "loads (strip bad) = JSONDecodeError"
  shows "read_lines loads (pre @ Text bad # post) = read_lines loads (pre @ post)"
proof (induction pre)
  case Nil
  with assms show ?case by (simp add: Let_def)
next
  case (Cons l pre)
  then show ?case
    by (cases l) (simp_all add: Let_def split: loaded.splits)
qed

lemma json_decode_error_no_effect:
  assumes "loads (strip bad) = JSONDecodeError"
  shows "view_main loads fromiso isoformat logfile top_n show_events (Some (pre @ Text bad # post)) =
         view_main loads fromiso isoformat logfile top_n show_events (Some (pre @ post))"
  using json_decode_error_skipped [of loads bad pre post] assms
  by (simp add: view_main_def load_events_def)

lemma undecodable_line_raises:
  "read_lines loads (pre @ Undecodable # post) = Inl LoadError"
proof (induction pre)
  case Nil
  show ?case by simp
next
  case (Cons l pre)
  then show ?case
    by (cases l) (simp_all add: Let_def split: loaded.splits)
qed

text \<open>
  C7, where the code departs from it. A line cut inside a multi-byte character is
  not skipped: wherever it stands in the log, and whatever the other lines hold,
  reading raises, the exception leaves \<open>load_events\<close> and the viewer, and no summary
  is printed. The line \<open>42\<close> is not skipped either: it is loaded as an event, and
  \<open>print_summary\<close> raises \<open>AttributeError\<close> on it.
\<close>

theorem unskipped_lines_raise:
  "view_main loads fromiso isoformat logfile top_n show_events (Some (pre @ Undecodable # post)) =
     (Some LoadError, [''[+] Reading events from: '' @ logfile]) \<and>
   view_main (loads_of json_loads) fromiso isoformat logfile top_n show_events (Some [Text ''42'']) =
     (Some AttributeError, [''[+] Reading events from: '' @ logfile])"
proof -
  have "json_loads (strip ''42'') = Some (JInt 42)"
    by code_simp
  moreover have "strip ''42'' \<noteq> []"
    by code_simp
  ultimately have "read_lines (loads_of json_loads) [Text ''42''] = Inr [JInt 42]"
    by (simp add: loads_of_def Let_def)
  then have "view_main (loads_of json_loads) fromiso isoformat logfile top_n show_events
      (Some [Text ''42'']) = (Some AttributeError, [''[+] Reading events from: '' @ logfile])"
    by (simp add: view_main_def load_events_def print_summary_def evt_get_def and_then_def)
  then show ?thesis
    by (simp add: view_main_def load_events_def undecodable_line_raises)
qed

section \<open>The summary under a permutation of the events\<close>

text \<open>A counter read at a value: what was there plus the values of the same key.\<close>

lemma counter_get_add:
  "counter_get (counter_add v c) u =
     (if key_of u = key_of v then Suc (counter_get c v) else counter_get c u)"
  by (induction c) auto

lemma counter_get_tally:
  "counter_get (tally vs c) u =
     counter_get c u + length (filter (\<lambda>v. key_of v = key_of u) vs)"
proof (induction vs arbitrary: c)
  case Nil
  show ?case by simp
next
  case (Cons v vs)
  have "counter_get c v = counter_get c u" if "key_of u = key_of v"
    using that by (induction c) auto
  with Cons show ?case
    by (auto simp: counter_get_add)
qed

lemma counter_get_perm:
  assumes "mset vs = mset vs'"
  shows "counter_get (tally vs []) u = counter_get (tally vs' []) u"
proof -
  have "length (filter P vs) = length (filter P vs')" for P
    using assms by (metis mset_filter size_mset)
  then show ?thesis
    by (simp add: counter_get_tally)
qed

text \<open>Counting by identity, and what it gives on a permutation.\<close>

lemma counter_add_id_map_of:
  "map_of (counter_add_id v c) k =
     (if k = v then Some (case map_of c v of None \<Rightarrow> 1 | Some n \<Rightarrow> Suc n) else map_of c k)"
  by (induction c) auto

lemma counter_add_id_fsts:
  "map fst (counter_add_id v c) = (if v \<in> fst ` set c then map fst c else map fst c @ [v])"
  by (induction c) (fastforce simp: image_iff)+

lemma counter_add_id_distinct:
  "distinct (map fst c) \<Longrightarrow> distinct (map fst (counter_add_id v c))"
  by (simp add: counter_add_id_fsts)

lemma tally_id_distinct: "distinct (map fst c) \<Longrightarrow> distinct (map fst (tally_id vs c))"
  by (induction vs arbitrary: c) (auto simp: counter_add_id_distinct)

lemma tally_id_map_of:
  "map_of (tally_id vs c) k =
     (case map_of c k of
        None \<Rightarrow> if count_list vs k = 0 then None else Some (count_list vs k)
      | Some n \<Rightarrow> Some (n + count_list vs k))"
proof (induction vs arbitrary: c)
  case Nil
  then show ?case by (simp split: option.splits)
next
  case (Cons v vs)
  show ?case
    by (simp add: Cons.IH counter_add_id_map_of split: option.splits)
qed

lemma tally_id_perm:
  assumes "mset vs = mset vs'"
  shows "mset (tally_id vs []) = mset (tally_id vs' [])"
proof -
  have cnt: "count_list vs k = count_list vs' k" for k
    using assms by (metis count_mset)
  have "map_of (tally_id vs []) = map_of (tally_id vs' [])"
    by (rule ext) (simp add: tally_id_map_of cnt)
  moreover have d: "distinct (map fst (tally_id vs []))" "distinct (map fst (tally_id vs' []))"
    by (simp_all add: tally_id_distinct)
  ultimately have "set (tally_id vs []) = set (tally_id vs' [])"
    by (simp add: map_of_inject_set)
  moreover from d have "distinct (tally_id vs [])" "distinct (tally_id vs' [])"
    by (simp_all add: distinct_map)
  ultimately show ?thesis
    by (simp add: set_eq_iff_mset_eq_distinct)
qed


text \<open>When no two values are the same key, the counter counts by identity.\<close>

lemma counter_add_is_id:
  assumes "inj_on key_of (insert v (fst ` set c))"
  shows "counter_add v c = counter_add_id v c"
  using assms
proof (induction c)
  case Nil
  show ?case by simp
next
  case (Cons a c)
  obtain k n where a: "a = (k, n)"
    by (cases a)
  from Cons.prems a have "key_of k = key_of v \<longleftrightarrow> k = v"
    by (auto simp: inj_on_def)
  moreover from Cons.prems have "inj_on key_of (insert v (fst ` set c))"
    by (auto simp: inj_on_def)
  ultimately show ?case
    using Cons.IH a by simp
qed

lemma tally_is_id:
  assumes "inj_on key_of (set vs \<union> fst ` set c)"
  shows "tally vs c = tally_id vs c"
  using assms
proof (induction vs arbitrary: c)
  case Nil
  show ?case by simp
next
  case (Cons v vs)
  from Cons.prems have "inj_on key_of (insert v (fst ` set c))"
    by (auto simp: inj_on_def)
  then have step: "counter_add v c = counter_add_id v c"
    by (rule counter_add_is_id)
  have "fst ` set (counter_add_id v c) = insert v (fst ` set c)"
    using counter_add_id_fsts [of v c] by (metis (no_types) list.set_map set_append
        list.simps(15) empty_set Un_insert_right sup_bot.right_neutral insert_absorb)
  with Cons.prems have "inj_on key_of (set vs \<union> fst ` set (counter_add_id v c))"
    by (auto simp: inj_on_def)
  from Cons.IH [OF this] step show ?case
    by simp
qed

lemma tally_perm:
  assumes "mset vs = mset vs'" and "inj_on key_of (set vs)"
  shows "mset (tally vs []) = mset (tally vs' [])"
proof -
  from assms(1) have "set vs = set vs'"
    by (rule mset_eq_setD)
  with assms(2) have "tally vs [] = tally_id vs []" "tally vs' [] = tally_id vs' []"
    by (simp_all add: tally_is_id)
  with tally_id_perm [OF assms(1)] show ?thesis
    by simp
qed

lemma count_field_tally:
  assumes "\<forall>evt\<in>set evts. case evt_get evt field (JStr ''unknown'') of Inl x \<Rightarrow> False | Inr v \<Rightarrow> hashable v"
  shows "count_field field evts c = Inr (tally (map (field_value field (JStr ''unknown'')) evts) c)"
  using assms
  by (induction evts arbitrary: c) (auto simp: field_value_def split: sum.splits)

lemma most_common_perm:
  assumes "mset c = mset c'" and "distinct (map snd c)"
  shows "most_common n c = most_common n c'"
proof -
  let ?f = "\<lambda>(item, cnt). - int cnt :: int"
  have "inj_on snd (set c)"
    using assms(2) by (simp add: distinct_map)
  have inj: "inj_on ?f (set c)"
  proof (rule inj_onI)
    fix x y
    assume xy: "x \<in> set c" "y \<in> set c" and eq: "?f x = ?f y"
    from eq have "snd x = snd y"
      by (cases x; cases y) simp
    with xy \<open>inj_on snd (set c)\<close> show "x = y"
      by (auto dest: inj_onD)
  qed
  have "sort_key ?f c = sort_key ?f c'"
    by (rule sort_key_inj_key_eq) (use assms inj in simp_all)
  then show ?thesis
    by (simp add: most_common_def)
qed

lemma print_counter_perm:
  assumes "mset c = mset c'" and "distinct (map snd c)"
  shows "print_counter title c n = print_counter title c' n"
proof -
  have "c = [] \<longleftrightarrow> c' = []"
    using assms(1) by (metis mset_zero_iff)
  with most_common_perm [OF assms] show ?thesis
    by (simp add: print_counter_def)
qed


lemma countable_record_dict: "countable_record evt \<Longrightarrow> \<exists>kvs. evt = JObj kvs"
  by (cases evt) (auto simp: countable_record_def summary_fields_def evt_get_def)

lemma timestamps_of_eq:
  assumes "\<forall>evt\<in>set evts. \<exists>kvs. evt = JObj kvs"
  shows "timestamps_of fromiso evts =
         Inr (List.map_filter (\<lambda>evt. parse_ts fromiso (field_value ''timestamp_utc'' JNull evt)) evts)"
  using assms
  by (induction evts) (auto simp: map_filter_simps field_value_def evt_get_def split: option.splits)

lemma mset_map_filter:
  "mset xs = mset ys \<Longrightarrow> mset (List.map_filter g xs) = mset (List.map_filter g ys)"
  by (simp add: map_filter_def)

lemma dt_less_same: "utcoffset a = utcoffset b \<Longrightarrow> dt_less a b = Inr (wall a < wall b)"
  by (cases "utcoffset b") (auto simp: dt_less_def)

lemma min_from_spec:
  assumes "\<forall>x\<in>set (m # xs). utcoffset x = off"
  shows "\<exists>r. min_from m xs = Inr r \<and> r \<in> set (m # xs) \<and> (\<forall>x\<in>set (m # xs). wall r \<le> wall x)"
  using assms
proof (induction xs arbitrary: m)
  case Nil
  then show ?case by simp
next
  case (Cons x xs)
  let ?m = "if wall x < wall m then x else m"
  from Cons.prems have step: "min_from m (x # xs) = min_from ?m xs"
    by (simp add: dt_less_same)
  from Cons.prems have "\<forall>y\<in>set (?m # xs). utcoffset y = off"
    by auto
  from Cons.IH [OF this] obtain r where
    r: "min_from ?m xs = Inr r" "r \<in> set (?m # xs)" "\<forall>y\<in>set (?m # xs). wall r \<le> wall y"
    by blast
  from r(3) have "wall r \<le> wall ?m" by simp
  with r step show ?case
    by (auto split: if_splits)
qed

lemma max_from_spec:
  assumes "\<forall>x\<in>set (m # xs). utcoffset x = off"
  shows "\<exists>r. max_from m xs = Inr r \<and> r \<in> set (m # xs) \<and> (\<forall>x\<in>set (m # xs). wall x \<le> wall r)"
  using assms
proof (induction xs arbitrary: m)
  case Nil
  then show ?case by simp
next
  case (Cons x xs)
  let ?m = "if wall m < wall x then x else m"
  from Cons.prems have step: "max_from m (x # xs) = max_from ?m xs"
    by (simp add: dt_less_same)
  from Cons.prems have "\<forall>y\<in>set (?m # xs). utcoffset y = off"
    by auto
  from Cons.IH [OF this] obtain r where
    r: "max_from ?m xs = Inr r" "r \<in> set (?m # xs)" "\<forall>y\<in>set (?m # xs). wall y \<le> wall r"
    by blast
  from r(3) have "wall ?m \<le> wall r" by simp
  with r step show ?case
    by (auto split: if_splits)
qed

lemma time_range_perm:
  assumes perm: "mset ts = mset ts'"
    and offs: "\<forall>a\<in>set ts. \<forall>b\<in>set ts. utcoffset a = utcoffset b"
  shows "time_range isoformat ts = time_range isoformat ts'"
proof (cases ts)
  case Nil
  with perm show ?thesis by simp
next
  case (Cons t r)
  with perm obtain t' r' where ts': "ts' = t' # r'"
    by (cases ts') auto
  from perm have sets: "set ts = set ts'"
    by (rule mset_eq_setD)
  from Cons have "t \<in> set ts"
    by simp
  with offs have "\<forall>x\<in>set ts. utcoffset x = utcoffset t"
    by blast
  then have a: "\<forall>x\<in>set (t # r). utcoffset x = utcoffset t"
    by (simp only: Cons)
  from \<open>t \<in> set ts\<close> offs sets have "\<forall>x\<in>set ts'. utcoffset x = utcoffset t"
    by blast
  then have b: "\<forall>x\<in>set (t' # r'). utcoffset x = utcoffset t"
    by (simp only: ts')
  from min_from_spec [OF a] obtain lo where
    lo: "min_from t r = Inr lo" "lo \<in> set ts" "\<forall>x\<in>set ts. wall lo \<le> wall x"
    using Cons by auto
  from min_from_spec [OF b] obtain lo' where
    lo': "min_from t' r' = Inr lo'" "lo' \<in> set ts" "\<forall>x\<in>set ts. wall lo' \<le> wall x"
    using ts' sets by auto
  from max_from_spec [OF a] obtain hi where
    hi: "max_from t r = Inr hi" "hi \<in> set ts" "\<forall>x\<in>set ts. wall x \<le> wall hi"
    using Cons by auto
  from max_from_spec [OF b] obtain hi' where
    hi': "max_from t' r' = Inr hi'" "hi' \<in> set ts" "\<forall>x\<in>set ts. wall x \<le> wall hi'"
    using ts' sets by auto
  from lo(2,3) lo'(2,3) have "wall lo \<le> wall lo'" "wall lo' \<le> wall lo"
    by blast+
  then have "wall lo = wall lo'"
    by simp
  moreover from lo(2) lo'(2) offs have "utcoffset lo = utcoffset lo'"
    by blast
  ultimately have "lo = lo'"
    by simp
  from hi(2,3) hi'(2,3) have "wall hi \<le> wall hi'" "wall hi' \<le> wall hi"
    by blast+
  then have "wall hi = wall hi'"
    by simp
  moreover from hi(2) hi'(2) offs have "utcoffset hi = utcoffset hi'"
    by blast
  ultimately have "hi = hi'"
    by simp
  with \<open>lo = lo'\<close> lo(1) lo'(1) hi(1) hi'(1) Cons ts' show ?thesis
    by (simp add: time_range_def)
qed



lemma count_field_countable:
  assumes "\<forall>evt\<in>set evts. countable_record evt" and "field \<in> set summary_fields"
  shows "count_field field evts [] =
         Inr (tally (map (field_value field (JStr ''unknown'')) evts) [])"
proof (rule count_field_tally, rule ballI)
  fix evt
  assume "evt \<in> set evts"
  with assms(1) have "countable_record evt"
    by blast
  with assms(2) show "case evt_get evt field (JStr ''unknown'') of Inl x \<Rightarrow> False | Inr v \<Rightarrow> hashable v"
    unfolding countable_record_def by blast
qed

lemma count_field_perm:
  assumes "mset xs = mset ys" and "\<forall>evt\<in>set xs. countable_record evt"
    and "field \<in> set summary_fields"
  shows "\<exists>c c'. count_field field xs [] = Inr c \<and> count_field field ys [] = Inr c' \<and>
           (\<forall>v. counter_get c v = counter_get c' v) \<and>
           (one_form field xs \<longrightarrow> mset c = mset c')"
proof -
  from assms(1) have "set xs = set ys"
    by (rule mset_eq_setD)
  with assms(2) have ys: "\<forall>evt\<in>set ys. countable_record evt"
    by simp
  let ?v = "field_value field (JStr ''unknown'')"
  from assms(1) have vals: "mset (map ?v xs) = mset (map ?v ys)"
    by simp
  have get: "counter_get (tally (map ?v xs) []) v = counter_get (tally (map ?v ys) []) v" for v
    using vals by (rule counter_get_perm)
  have "mset (tally (map ?v xs) []) = mset (tally (map ?v ys) [])" if "one_form field xs"
  proof -
    from that have "inj_on key_of (set (map ?v xs))"
      unfolding one_form_def inj_on_def by auto
    with vals show ?thesis
      by (rule tally_perm)
  qed
  with get count_field_countable [OF assms(2,3)] count_field_countable [OF ys assms(3)]
  show ?thesis
    by blast
qed

lemma observed_range_perm:
  assumes perm: "mset xs = mset ys" and recs: "\<forall>evt\<in>set xs. countable_record evt"
    and offs: "same_offsets fromiso xs"
  shows "observed_range fromiso isoformat xs = observed_range fromiso isoformat ys"
proof -
  let ?g = "\<lambda>evt. parse_ts fromiso (field_value ''timestamp_utc'' JNull evt)"
  from perm have "set xs = set ys"
    by (rule mset_eq_setD)
  with recs have dx: "\<forall>evt\<in>set xs. \<exists>kvs. evt = JObj kvs" and dy: "\<forall>evt\<in>set ys. \<exists>kvs. evt = JObj kvs"
    using countable_record_dict by blast+
  have tx: "timestamps_of fromiso xs = Inr (List.map_filter ?g xs)"
    and ty: "timestamps_of fromiso ys = Inr (List.map_filter ?g ys)"
    by (rule timestamps_of_eq [OF dx], rule timestamps_of_eq [OF dy])
  from offs [unfolded same_offsets_def tx sum.case]
  have "\<forall>a\<in>set (List.map_filter ?g xs). \<forall>b\<in>set (List.map_filter ?g xs).
      utcoffset a = utcoffset b" .
  with mset_map_filter [OF perm, of ?g]
  have "time_range isoformat (List.map_filter ?g xs) = time_range isoformat (List.map_filter ?g ys)"
    by (rule time_range_perm)
  with tx ty show ?thesis
    by (simp add: observed_range_def)
qed

text \<open>
  C8, as the code has it. Take a sequence of events the counters accept and any
  permutation of it. The total is the same, and each of the four counters gives the
  same count at every value. The time range is the same when all timestamps that
  parse carry one UTC offset, as those the agent writes do. The tables, and with them
  the whole output, are then the same when, in each of the four fields, no two items
  have the same count and no two values are the same key in different forms (as \<open>1\<close>
  and \<open>1.0\<close> are). Items of equal count are listed in the order they were first seen,
  and an item is shown in the form first seen; a permutation changes both.
\<close>

theorem summary_under_permutation:
  assumes perm: "mset xs = mset ys"
    and recs: "\<forall>evt\<in>set xs. countable_record evt"
  shows "length xs = length ys \<and>
         (\<forall>field\<in>set summary_fields.
            \<exists>c c'. count_field field xs [] = Inr c \<and> count_field field ys [] = Inr c' \<and>
              (\<forall>v. counter_get c v = counter_get c' v)) \<and>
         (same_offsets fromiso xs \<longrightarrow>
            observed_range fromiso isoformat xs = observed_range fromiso isoformat ys) \<and>
         (same_offsets fromiso xs \<and>
          (\<forall>field\<in>set summary_fields. no_ties field xs \<and> one_form field xs) \<longrightarrow>
            print_summary fromiso isoformat xs top_n = print_summary fromiso isoformat ys top_n)"
proof (intro conjI ballI impI)
  from perm show len: "length xs = length ys"
    by (rule mset_eq_length)
  show "\<exists>c c'. count_field field xs [] = Inr c \<and> count_field field ys [] = Inr c' \<and>
          (\<forall>v. counter_get c v = counter_get c' v)"
    if "field \<in> set summary_fields" for field
    using count_field_perm [OF perm recs that] by blast
  show "observed_range fromiso isoformat xs = observed_range fromiso isoformat ys"
    if "same_offsets fromiso xs"
    by (rule observed_range_perm [OF perm recs that])
  assume hyp: "same_offsets fromiso xs \<and>
    (\<forall>field\<in>set summary_fields. no_ties field xs \<and> one_form field xs)"
  then have rng: "observed_range fromiso isoformat xs = observed_range fromiso isoformat ys"
    by (intro observed_range_perm [OF perm recs]) simp
  have table: "\<exists>c c'. count_field field xs [] = Inr c \<and> count_field field ys [] = Inr c' \<and>
                 print_counter title c top_n = print_counter title c' top_n"
    if f: "field \<in> set summary_fields" for field title
  proof -
    from hyp f have one: "one_form field xs" and ties: "no_ties field xs"
      by blast+
    from count_field_perm [OF perm recs f] one obtain c c' where
      c: "count_field field xs [] = Inr c" "count_field field ys [] = Inr c'" "mset c = mset c'"
      by blast
    from ties c(1) have "distinct (map snd c)"
      by (simp add: no_ties_def)
    with c(3) have "print_counter title c top_n = print_counter title c' top_n"
      by (rule print_counter_perm)
    with c show ?thesis
      by blast
  qed
  from table [of "''risk''" "''By risk''"] obtain r r' where
    r: "count_field ''risk'' xs [] = Inr r" "count_field ''risk'' ys [] = Inr r'"
       "print_counter ''By risk'' r top_n = print_counter ''By risk'' r' top_n"
    by (auto simp: summary_fields_def)
  from table [of "''signature_name''" "''By signature''"] obtain s s' where
    s: "count_field ''signature_name'' xs [] = Inr s" "count_field ''signature_name'' ys [] = Inr s'"
       "print_counter ''By signature'' s top_n = print_counter ''By signature'' s' top_n"
    by (auto simp: summary_fields_def)
  from table [of "''username''" "''By user''"] obtain u u' where
    u: "count_field ''username'' xs [] = Inr u" "count_field ''username'' ys [] = Inr u'"
       "print_counter ''By user'' u top_n = print_counter ''By user'' u' top_n"
    by (auto simp: summary_fields_def)
  from table [of "''hostname''" "''By host''"] obtain h h' where
    h: "count_field ''hostname'' xs [] = Inr h" "count_field ''hostname'' ys [] = Inr h'"
       "print_counter ''By host'' h top_n = print_counter ''By host'' h' top_n"
    by (auto simp: summary_fields_def)
  from len have emp: "(xs = []) = (ys = [])"
    by auto
  show "print_summary fromiso isoformat xs top_n = print_summary fromiso isoformat ys top_n"
    unfolding print_summary_def r(1,2) s(1,2) u(1,2) h(1,2) sum.case r(3) s(3) u(3) h(3) len rng emp
    by (rule refl)
qed

theorem summary_under_permutation_witness:
  "same_offsets (\<lambda>s. Some \<lparr>wall = int (length s), utcoffset = Some 0\<rparr>)
     [JObj [(''risk'', JStr ''low''), (''timestamp_utc'', JStr ''2024'')],
      JObj [(''risk'', JStr ''low'')],
      JObj [(''risk'', JStr ''high''), (''timestamp_utc'', JStr ''2024-01'')]] \<and>
   no_ties ''risk''
     [JObj [(''risk'', JStr ''low''), (''timestamp_utc'', JStr ''2024'')],
      JObj [(''risk'', JStr ''low'')],
      JObj [(''risk'', JStr ''high''), (''timestamp_utc'', JStr ''2024-01'')]] \<and>
   one_form ''risk''
     [JObj [(''risk'', JStr ''low''), (''timestamp_utc'', JStr ''2024'')],
      JObj [(''risk'', JStr ''low'')],
      JObj [(''risk'', JStr ''high''), (''timestamp_utc'', JStr ''2024-01'')]] \<and>
   print_summary (\<lambda>s. Some \<lparr>wall = int (length s), utcoffset = Some 0\<rparr>) (\<lambda>t. str_int (wall t))
     [JObj [(''risk'', JStr ''low''), (''timestamp_utc'', JStr ''2024'')],
      JObj [(''risk'', JStr ''low'')],
      JObj [(''risk'', JStr ''high''), (''timestamp_utc'', JStr ''2024-01'')]] 5 =
   print_summary (\<lambda>s. Some \<lparr>wall = int (length s), utcoffset = Some 0\<rparr>) (\<lambda>t. str_int (wall t))
     [JObj [(''risk'', JStr ''high''), (''timestamp_utc'', JStr ''2024-01'')],
      JObj [(''risk'', JStr ''low''), (''timestamp_utc'', JStr ''2024'')],
      JObj [(''risk'', JStr ''low'')]] 5"
proof -
  let ?F = "\<lambda>s. Some \<lparr>wall = int (length s), utcoffset = Some 0\<rparr>"
  let ?a = "JObj [(''risk'', JStr ''low''), (''timestamp_utc'', JStr ''2024'')]"
  let ?b = "JObj [(''risk'', JStr ''low'')]"
  let ?c = "JObj [(''risk'', JStr ''high''), (''timestamp_utc'', JStr ''2024-01'')]"
  have perm: "mset [?a, ?b, ?c] = mset [?c, ?a, ?b]"
    by simp
  have recs: "\<forall>evt\<in>set [?a, ?b, ?c]. countable_record evt"
    by (simp add: countable_record_def summary_fields_def evt_get_def hashable_def)
  have offs: "same_offsets ?F [?a, ?b, ?c]"
    by (simp add: same_offsets_def evt_get_def parse_ts_def)
  have ties: "\<forall>field\<in>set summary_fields. no_ties field [?a, ?b, ?c]"
    by (simp add: no_ties_def summary_fields_def evt_get_def hashable_def)
  have forms: "\<forall>field\<in>set summary_fields. one_form field [?a, ?b, ?c]"
    by (simp add: one_form_def summary_fields_def evt_get_def field_value_def)
  from ties forms have tie: "no_ties ''risk'' [?a, ?b, ?c]" and form: "one_form ''risk'' [?a, ?b, ?c]"
    by (simp_all add: summary_fields_def)
  from summary_under_permutation [OF perm recs, of ?F "\<lambda>t. str_int (wall t)" 5] offs ties forms
  have "print_summary ?F (\<lambda>t. str_int (wall t)) [?a, ?b, ?c] 5 =
        print_summary ?F (\<lambda>t. str_int (wall t)) [?c, ?a, ?b] 5"
    by blast
  with offs tie form show ?thesis
    by blast
qed

text \<open>
  C8 as the specification words it claims identical tables for every permutation.
  Two events with different risks give two items of count 1; the table lists them in
  the order of the lines.
\<close>

theorem tie_order_counterexample:
  "mset [JObj [(''risk'', JStr ''low'')], JObj [(''risk'', JStr ''high'')]] =
   mset [JObj [(''risk'', JStr ''high'')], JObj [(''risk'', JStr ''low'')]] \<and>
   take 3 (drop 6 (snd (print_summary (\<lambda>s. None) (\<lambda>t. [])
     [JObj [(''risk'', JStr ''low'')], JObj [(''risk'', JStr ''high'')]] 5))) =
     [''By risk:'', ''  low                            1'', ''  high                           1''] \<and>
   take 3 (drop 6 (snd (print_summary (\<lambda>s. None) (\<lambda>t. [])
     [JObj [(''risk'', JStr ''high'')], JObj [(''risk'', JStr ''low'')]] 5))) =
     [''By risk:'', ''  high                           1'', ''  low                            1''] \<and>
   print_summary (\<lambda>s. None) (\<lambda>t. [])
     [JObj [(''risk'', JStr ''low'')], JObj [(''risk'', JStr ''high'')]] 5 \<noteq>
   print_summary (\<lambda>s. None) (\<lambda>t. [])
     [JObj [(''risk'', JStr ''high'')], JObj [(''risk'', JStr ''low'')]] 5"
proof -
  have "mset [JObj [(''risk'', JStr ''low'')], JObj [(''risk'', JStr ''high'')]] =
        mset [JObj [(''risk'', JStr ''high'')], JObj [(''risk'', JStr ''low'')]]"
    by simp
  moreover have "take 3 (drop 6 (snd (print_summary (\<lambda>s. None) (\<lambda>t. [])
     [JObj [(''risk'', JStr ''low'')], JObj [(''risk'', JStr ''high'')]] 5))) =
     [''By risk:'', ''  low                            1'', ''  high                           1'']"
    by code_simp
  moreover have "take 3 (drop 6 (snd (print_summary (\<lambda>s. None) (\<lambda>t. [])
     [JObj [(''risk'', JStr ''high'')], JObj [(''risk'', JStr ''low'')]] 5))) =
     [''By risk:'', ''  high                           1'', ''  low                            1'']"
    by code_simp
  moreover have "print_summary (\<lambda>s. None) (\<lambda>t. [])
     [JObj [(''risk'', JStr ''low'')], JObj [(''risk'', JStr ''high'')]] 5 \<noteq>
   print_summary (\<lambda>s. None) (\<lambda>t. [])
     [JObj [(''risk'', JStr ''high'')], JObj [(''risk'', JStr ''low'')]] 5"
    by code_simp
  ultimately show ?thesis
    by blast
qed


section \<open>Log I/O failures in a scan cycle\<close>








section \<open>Writing a record and reading it back\<close>

text \<open>The decoder undoes the string escapes of the encoder.\<close>
lemma hex_digits: "\<forall>d\<in>set [0..<16]. hex_val (digit_char d) = Some d"
  by code_simp

lemma hex_digit: "d < 16 \<Longrightarrow> hex_val (digit_char d) = Some d"
  using hex_digits by simp

lemma unescape_escape:
  assumes "scanstring r = Some (str, rest)"
  shows "scanstring (escape_char c @ r) = Some (c # str, rest)"
proof -
  let ?n = "of_char c :: nat"
  consider "c = CHR 0x22" | "c = CHR 0x5C" | "c = CHR 0x0A" | "c = CHR 0x0D" | "c = CHR 0x09"
    | "c = CHR 0x08" | "c = CHR 0x0C"
    | "c \<notin> {CHR 0x22, CHR 0x5C, CHR 0x0A, CHR 0x0D, CHR 0x09, CHR 0x08, CHR 0x0C}" "?n < 32"
    | "c \<notin> {CHR 0x22, CHR 0x5C, CHR 0x0A, CHR 0x0D, CHR 0x09, CHR 0x08, CHR 0x0C}" "\<not> ?n < 32"
    by blast
  then show ?thesis
  proof cases
    case 8
    then have d: "?n div 16 < 16" "?n mod 16 < 16"
      by simp_all
    have z: "hex_val CHR ''0'' = Some 0"
      by (simp add: hex_val_def)
    from 8 have lt: "?n < 256"
      by simp
    from 8 have "escape_char c = [CHR 0x5C, CHR ''u'', CHR ''0'', CHR ''0'',
              digit_char (?n div 16), digit_char (?n mod 16)]"
      by (simp add: escape_char_def)
    then show ?thesis
      using hex_digit [OF d(1)] hex_digit [OF d(2)] z lt assms
      by (simp add: Let_def)
  next
    case 9
    with assms show ?thesis
      by (simp add: escape_char_def)
  qed (simp_all add: escape_char_def unescape_def assms)
qed

lemma scanstring_encode:
  "scanstring (concat (map escape_char s) @ CHR 0x22 # rest) = Some (s, rest)"
  by (induction s) (simp_all add: unescape_escape)


lemma digit_chars: "\<forall>d\<in>set [0..<10]. of_char (digit_char d) = 48 + d"
  by code_simp

lemma of_char_digit: "d < 10 \<Longrightarrow> (of_char (digit_char d) :: nat) = 48 + d"
  using digit_chars by simp

lemma is_digit_digit_char: "d < 10 \<Longrightarrow> is_digit (digit_char d)"
  by (simp add: is_digit_def of_char_digit)

lemma digit_char_zero: "d < 10 \<Longrightarrow> (digit_char d = CHR ''0'') = (d = 0)"
proof
  assume d: "d < 10" and "digit_char d = CHR ''0''"
  then have "(of_char (digit_char d) :: nat) = 48"
    by simp
  with d show "d = 0"
    by (simp add: of_char_digit)
next
  assume "d = 0"
  then show "digit_char d = CHR ''0''"
    by (simp add: digit_char_def)
qed

lemma str_nat_digits: "\<forall>c\<in>set (str_nat n). is_digit c"
proof (induction n rule: str_nat.induct)
  case (1 n)
  show ?case
  proof (cases "n < 10")
    case True
    then show ?thesis
      by (subst str_nat.simps) (simp add: is_digit_digit_char)
  next
    case False
    with 1 show ?thesis
      by (subst str_nat.simps) (simp add: is_digit_digit_char)
  qed
qed

lemma nat_of_digits_snoc: "nat_of_digits (ds @ [d]) = 10 * nat_of_digits ds + (of_char d - 48)"
  by (simp add: nat_of_digits_def)

lemma nat_of_digits_str_nat: "nat_of_digits (str_nat n) = n"
proof (induction n rule: str_nat.induct)
  case (1 n)
  show ?case
  proof (cases "n < 10")
    case True
    then show ?thesis
      by (subst str_nat.simps) (simp add: nat_of_digits_def of_char_digit)
  next
    case False
    with 1 have "nat_of_digits (str_nat (n div 10)) = n div 10"
      by simp
    with False show ?thesis
      by (subst str_nat.simps) (simp add: nat_of_digits_snoc of_char_digit)
  qed
qed

lemma str_nat_hd: "\<exists>c cs. str_nat n = c # cs \<and> is_digit c \<and> (c = CHR ''0'' \<longrightarrow> n = 0 \<and> cs = [])"
proof (induction n rule: str_nat.induct)
  case (1 n)
  show ?case
  proof (cases "n < 10")
    case True
    then show ?thesis
      by (subst str_nat.simps) (simp add: is_digit_digit_char digit_char_zero)
  next
    case False
    with 1 obtain c cs where c: "str_nat (n div 10) = c # cs" "is_digit c"
      "c = CHR ''0'' \<longrightarrow> n div 10 = 0 \<and> cs = []"
      by blast
    from False have "n div 10 \<noteq> 0"
      by simp
    with c have "c \<noteq> CHR ''0''"
      by blast
    with c False show ?thesis
      by (subst str_nat.simps) simp
  qed
qed

lemma scan_nat_str_nat:
  assumes "\<forall>c cs. rest = c # cs \<longrightarrow> \<not> is_digit c"
  shows "scan_nat (str_nat n @ rest) = Some (n, rest)"
proof -
  from str_nat_hd [of n] obtain c cs where c: "str_nat n = c # cs" "is_digit c"
      "c = CHR ''0'' \<longrightarrow> n = 0 \<and> cs = []"
    by blast
  from str_nat_digits [of n] c have ds: "\<forall>x\<in>set cs. is_digit x"
    by simp
  from assms have tw: "takeWhile is_digit (cs @ rest) = cs" "dropWhile is_digit (cs @ rest) = rest"
    using ds by (cases rest; simp add: takeWhile_append2 dropWhile_append2)+
  show ?thesis
  proof (cases "c = CHR ''0''")
    case True
    with c show ?thesis
      by (simp add: scan_nat_def)
  next
    case False
    from nat_of_digits_str_nat [of n] c have "nat_of_digits (c # cs) = n"
      by simp
    with False c tw show ?thesis
      by (simp add: scan_nat_def)
  qed
qed

lemma scan_int_str_int:
  assumes "\<forall>c cs. rest = c # cs \<longrightarrow> \<not> is_digit c"
  shows "scan_int (str_int i @ rest) = Some (JInt i, rest)"
proof (cases "i < 0")
  case True
  with scan_nat_str_nat [OF assms, of "nat (- i)"] show ?thesis
    by (simp add: scan_int_def str_int_def)
next
  case False
  from str_nat_hd [of "nat i"] obtain c cs where c: "str_nat (nat i) = c # cs" "is_digit c"
    by blast
  then have "c \<noteq> CHR ''-''"
    by (auto simp: is_digit_def)
  with False c scan_nat_str_nat [OF assms, of "nat i"] show ?thesis
    by (simp add: scan_int_def str_int_def)
qed


lemma skip_ws_id: "\<forall>c cs. s = c # cs \<longrightarrow> \<not> is_json_ws c \<Longrightarrow> skip_ws s = s"
  by (cases s) (simp_all add: skip_ws_def)

lemma skip_ws_space: "skip_ws (CHR '' '' # s) = skip_ws s"
  by (simp add: skip_ws_def is_json_ws_def)

lemma starter_plain:
  "starter c \<Longrightarrow> \<not> is_json_ws c \<and> c \<noteq> CHR '']'' \<and> c \<noteq> CHR ''}''"
  by (auto simp: starter_def is_json_ws_def is_digit_def)

lemma str_int_hd: "\<exists>c cs. str_int i = c # cs \<and> (c = CHR ''-'' \<or> is_digit c)"
  using str_nat_hd [of "nat i"] str_nat_hd [of "nat (- i)"]
  by (auto simp: str_int_def)

lemma json_dumps_hd: "no_float v \<Longrightarrow> \<exists>c cs. json_dumps v = c # cs \<and> starter c"
proof (cases v)
  case (JInt i)
  with str_int_hd [of i] show ?thesis
    by (auto simp: starter_def)
qed (auto simp: starter_def encode_string_def)

lemma dumps_items_hd: "xs \<noteq> [] \<Longrightarrow> no_float_items xs \<Longrightarrow> \<exists>c cs. dumps_items xs = c # cs \<and> starter c"
proof (cases xs)
  case Nil
  then show "xs \<noteq> [] \<Longrightarrow> ?thesis" by simp
next
  case (Cons x r)
  assume "no_float_items xs"
  with Cons have "no_float x"
    by simp
  from json_dumps_hd [OF this] Cons show ?thesis
    by (cases r) auto
qed

lemma dumps_members_hd: "kvs \<noteq> [] \<Longrightarrow> \<exists>cs. dumps_members kvs = CHR 0x22 # cs"
proof (cases kvs)
  case Nil
  then show "kvs \<noteq> [] \<Longrightarrow> ?thesis" by simp
next
  case (Cons kv r)
  then show ?thesis
    by (cases kv; cases r) (auto simp: encode_string_def)
qed

lemma dict_set_fresh: "k \<notin> fst ` set d \<Longrightarrow> dict_set k v d = d @ [(k, v)]"
  by (induction d) auto

lemma dict_of_distinct_aux:
  "distinct (map fst (d @ kvs)) \<Longrightarrow> foldl (\<lambda>d (k, v). dict_set k v d) d kvs = d @ kvs"
proof (induction kvs arbitrary: d)
  case Nil
  then show ?case by simp
next
  case (Cons kv kvs)
  obtain k v where kv: "kv = (k, v)"
    by (cases kv)
  from Cons.prems kv have "k \<notin> fst ` set d"
    by auto
  then have "dict_set k v d = d @ [(k, v)]"
    by (rule dict_set_fresh)
  moreover from Cons.prems kv have "distinct (map fst ((d @ [(k, v)]) @ kvs))"
    by simp
  ultimately show ?case
    using Cons.IH [of "d @ [(k, v)]"] kv by simp
qed

lemma dict_of_distinct: "distinct (map fst kvs) \<Longrightarrow> dict_of kvs = kvs"
  using dict_of_distinct_aux [of "[]" kvs] by (simp add: dict_of_def)


lemma scan_roundtrip:
  "py_value v \<longrightarrow> no_float v \<longrightarrow>
     (\<forall>fuel rest. need v \<le> fuel \<longrightarrow> (\<forall>c cs. rest = c # cs \<longrightarrow> \<not> is_digit c) \<longrightarrow>
        scan_value fuel (json_dumps v @ rest) = Some (v, rest))"
  "xs \<noteq> [] \<longrightarrow> py_items xs \<longrightarrow> no_float_items xs \<longrightarrow>
     (\<forall>fuel rest. need_items xs \<le> fuel \<longrightarrow>
        scan_items fuel (dumps_items xs @ CHR '']'' # rest) = Some (xs, rest))"
  "kvs \<noteq> [] \<longrightarrow> py_members kvs \<longrightarrow> no_float_members kvs \<longrightarrow>
     (\<forall>fuel rest. need_members kvs \<le> fuel \<longrightarrow>
        scan_members fuel (dumps_members kvs @ CHR ''}'' # rest) = Some (kvs, rest))"
proof (induction v and xs and kvs rule: json_dumps_dumps_items_dumps_members.induct)
  case 1
  show ?case
  proof (intro impI allI)
    fix fuel :: nat and rest
    assume "need JNull \<le> fuel"
    then obtain f where "fuel = Suc f"
      by (cases fuel) simp_all
    then show "scan_value fuel (json_dumps JNull @ rest) = Some (JNull, rest)"
      by simp
  qed
next
  case (2 b)
  show ?case
  proof (intro impI allI)
    fix fuel :: nat and rest
    assume "need (JBool b) \<le> fuel"
    then obtain f where "fuel = Suc f"
      by (cases fuel) simp_all
    then show "scan_value fuel (json_dumps (JBool b) @ rest) = Some (JBool b, rest)"
      by (cases b) simp_all
  qed
next
  case (3 i)
  show ?case
  proof (intro impI allI)
    fix fuel :: nat and rest
    assume "need (JInt i) \<le> fuel" and sep: "\<forall>c cs. rest = c # cs \<longrightarrow> \<not> is_digit c"
    then obtain f where f: "fuel = Suc f"
      by (cases fuel) simp_all
    from str_int_hd [of i] obtain c cs where c: "str_int i = c # cs" "c = CHR ''-'' \<or> is_digit c"
      by blast
    then have "c \<notin> {CHR 0x22, CHR ''{'', CHR ''['', CHR ''n'', CHR ''t'', CHR ''f''}"
      by (auto simp: is_digit_def)
    then have "scan_value (Suc f) (c # cs @ rest) = scan_int (c # cs @ rest)"
      by simp
    with c f scan_int_str_int [OF sep, of i]
    show "scan_value fuel (json_dumps (JInt i) @ rest) = Some (JInt i, rest)"
      by simp
  qed
next
  case (4 x s)
  show ?case by simp
next
  case (5 s)
  show ?case
  proof (intro impI allI)
    fix fuel :: nat and rest
    assume "need (JStr s) \<le> fuel"
    then obtain f where "fuel = Suc f"
      by (cases fuel) simp_all
    then show "scan_value fuel (json_dumps (JStr s) @ rest) = Some (JStr s, rest)"
      by (simp add: encode_string_def scanstring_encode)
  qed
next
  case (6 xs)
  show ?case
  proof (intro impI allI)
    fix fuel :: nat and rest
    assume py: "py_value (JArr xs)" and nf: "no_float (JArr xs)" and "need (JArr xs) \<le> fuel"
    then obtain f where f: "fuel = Suc f" "need_items xs \<le> f"
      by (cases fuel) simp_all
    show "scan_value fuel (json_dumps (JArr xs) @ rest) = Some (JArr xs, rest)"
    proof (cases "xs = []")
      case True
      with f show ?thesis
        by (simp add: skip_ws_def is_json_ws_def)
    next
      case False
      with nf dumps_items_hd [of xs] obtain c cs where c: "dumps_items xs = c # cs" "starter c"
        by auto
      from starter_plain [OF c(2)] have "skip_ws (c # cs @ CHR '']'' # rest) = c # cs @ CHR '']'' # rest"
        by (intro skip_ws_id) simp
      moreover from 6 False py nf f
      have "scan_items f (dumps_items xs @ CHR '']'' # rest) = Some (xs, rest)"
        by simp
      ultimately show ?thesis
        using c f starter_plain [OF c(2)] by simp
    qed
  qed
next
  case (7 kvs)
  show ?case
  proof (intro impI allI)
    fix fuel :: nat and rest
    assume py: "py_value (JObj kvs)" and nf: "no_float (JObj kvs)" and "need (JObj kvs) \<le> fuel"
    then obtain f where f: "fuel = Suc f" "need_members kvs \<le> f"
      by (cases fuel) simp_all
    show "scan_value fuel (json_dumps (JObj kvs) @ rest) = Some (JObj kvs, rest)"
    proof (cases "kvs = []")
      case True
      with f show ?thesis
        by (simp add: skip_ws_def is_json_ws_def)
    next
      case False
      with dumps_members_hd [of kvs] obtain cs where c: "dumps_members kvs = CHR 0x22 # cs"
        by auto
      have "skip_ws (CHR 0x22 # cs @ CHR ''}'' # rest) = CHR 0x22 # cs @ CHR ''}'' # rest"
        by (simp add: skip_ws_def is_json_ws_def)
      moreover from 7 False py nf f
      have "scan_members f (dumps_members kvs @ CHR ''}'' # rest) = Some (kvs, rest)"
        by simp
      moreover from py have "dict_of kvs = kvs"
        by (simp add: dict_of_distinct)
      ultimately show ?thesis
        using c f by simp
    qed
  qed
next
  case 8
  show ?case by simp
next
  case (9 x)
  show ?case
  proof (intro impI allI)
    fix fuel :: nat and rest
    assume py: "py_items [x]" and nf: "no_float_items [x]" and "need_items [x] \<le> fuel"
    then obtain f where f: "fuel = Suc f" "need x \<le> f"
      by (cases fuel) simp_all
    from 9 py nf f have "scan_value f (json_dumps x @ CHR '']'' # rest) = Some (x, CHR '']'' # rest)"
      by (simp add: is_digit_def)
    with f show "scan_items fuel (dumps_items [x] @ CHR '']'' # rest) = Some ([x], rest)"
      by (simp add: skip_ws_def is_json_ws_def)
  qed
next
  case (10 x y ys)
  show ?case
  proof (intro impI allI)
    fix fuel :: nat and rest
    assume py: "py_items (x # y # ys)" and nf: "no_float_items (x # y # ys)"
      and "need_items (x # y # ys) \<le> fuel"
    then obtain f where f: "fuel = Suc f" "need x \<le> f" "need_items (y # ys) \<le> f"
      by (cases fuel) simp_all
    let ?tail = "dumps_items (y # ys) @ CHR '']'' # rest"
    from 10(1) py nf f have "scan_value f (json_dumps x @ CHR '','' # CHR '' '' # ?tail) =
        Some (x, CHR '','' # CHR '' '' # ?tail)"
      by (simp add: is_digit_def)
    moreover from nf dumps_items_hd [of "y # ys"] obtain c cs where
      c: "dumps_items (y # ys) = c # cs" "starter c"
      by auto
    with starter_plain [OF c(2)] have "skip_ws (CHR '' '' # ?tail) = ?tail"
      by (simp add: skip_ws_def is_json_ws_def)
    moreover from 10(2) py nf f have "scan_items f ?tail = Some (y # ys, rest)"
      by simp
    ultimately show "scan_items fuel (dumps_items (x # y # ys) @ CHR '']'' # rest) =
        Some (x # y # ys, rest)"
      using f by (simp add: skip_ws_def is_json_ws_def)
  qed
next
  case 11
  show ?case by simp
next
  case (12 k v)
  show ?case
  proof (intro impI allI)
    fix fuel :: nat and rest
    assume py: "py_members [(k, v)]" and nf: "no_float_members [(k, v)]"
      and "need_members [(k, v)] \<le> fuel"
    then obtain f where f: "fuel = Suc f" "need v \<le> f"
      by (cases fuel) simp_all
    from nf json_dumps_hd [of v] obtain c cs where c: "json_dumps v = c # cs" "starter c"
      by auto
    with starter_plain [OF c(2)] have ws: "skip_ws (CHR '' '' # json_dumps v @ CHR ''}'' # rest) =
        json_dumps v @ CHR ''}'' # rest"
      by (simp add: skip_ws_def is_json_ws_def)
    from 12 py nf f have "scan_value f (json_dumps v @ CHR ''}'' # rest) = Some (v, CHR ''}'' # rest)"
      by (simp add: is_digit_def)
    with f ws show "scan_members fuel (dumps_members [(k, v)] @ CHR ''}'' # rest) =
        Some ([(k, v)], rest)"
      by (simp add: encode_string_def scanstring_encode skip_ws_def is_json_ws_def)
  qed
next
  case (13 k v kv kvs)
  show ?case
  proof (intro impI allI)
    fix fuel :: nat and rest
    assume py: "py_members ((k, v) # kv # kvs)" and nf: "no_float_members ((k, v) # kv # kvs)"
      and "need_members ((k, v) # kv # kvs) \<le> fuel"
    then obtain f where f: "fuel = Suc f" "need v \<le> f" "need_members (kv # kvs) \<le> f"
      by (cases fuel) simp_all
    let ?tail = "dumps_members (kv # kvs) @ CHR ''}'' # rest"
    from nf json_dumps_hd [of v] obtain c cs where c: "json_dumps v = c # cs" "starter c"
      by auto
    with starter_plain [OF c(2)]
    have ws: "skip_ws (CHR '' '' # json_dumps v @ CHR '','' # CHR '' '' # ?tail) =
        json_dumps v @ CHR '','' # CHR '' '' # ?tail"
      by (simp add: skip_ws_def is_json_ws_def)
    from 13(1) py nf f have v: "scan_value f (json_dumps v @ CHR '','' # CHR '' '' # ?tail) =
        Some (v, CHR '','' # CHR '' '' # ?tail)"
      by (simp add: is_digit_def)
    from dumps_members_hd [of "kv # kvs"] obtain ds where "dumps_members (kv # kvs) = CHR 0x22 # ds"
      by auto
    then have ws2: "skip_ws (CHR '' '' # ?tail) = ?tail"
      by (simp add: skip_ws_def is_json_ws_def)
    from 13(2) py nf f have "scan_members f ?tail = Some (kv # kvs, rest)"
      by simp
    with f ws v ws2 show "scan_members fuel (dumps_members ((k, v) # kv # kvs) @ CHR ''}'' # rest) =
        Some ((k, v) # kv # kvs, rest)"
      by (simp add: encode_string_def scanstring_encode skip_ws_def is_json_ws_def)
  qed
qed


lemma need_le:
  "no_float v \<longrightarrow> need v \<le> length (json_dumps v)"
  "no_float_items xs \<longrightarrow> need_items xs \<le> Suc (length (dumps_items xs))"
  "no_float_members kvs \<longrightarrow> need_members kvs \<le> Suc (length (dumps_members kvs))"
proof (induction v and xs and kvs rule: json_dumps_dumps_items_dumps_members.induct)
  case (3 i)
  from str_int_hd [of i] show ?case
    by auto
qed (auto simp: encode_string_def)

lemma json_loads_dumps:
  assumes "py_value v" "no_float v"
  shows "json_loads (json_dumps v) = Some v"
proof -
  from json_dumps_hd [OF assms(2)] obtain c cs where c: "json_dumps v = c # cs" "starter c"
    by blast
  from starter_plain [OF c(2)] c(1) have "skip_ws (json_dumps v) = json_dumps v"
    by (simp add: skip_ws_def)
  moreover from need_le(1) assms have "need v \<le> Suc (length (json_dumps v))"
    by (simp add: le_SucI)
  with scan_roundtrip(1) [of v] assms
  have "scan_value (Suc (length (json_dumps v))) (json_dumps v @ []) = Some (v, [])"
    by blast
  ultimately show ?thesis
    by (simp add: json_loads_def skip_ws_def)
qed

lemma strip_object_line: "strip (record_line (JObj kvs)) = json_dumps (JObj kvs)"
  by (simp add: strip_def record_line_def is_space_def)

lemma py_items_strs: "py_items (map JStr l)"
  by (induction l) simp_all

lemma no_float_items_strs: "no_float_items (map JStr l)"
  by (induction l) simp_all

lemma event_py_value: "py_value (event ts hostname info sig)"
  by (simp add: event_def py_items_strs split: option.splits)

lemma event_no_float: "no_float (event ts hostname info sig)"
  by (simp add: event_def no_float_items_strs split: option.splits)

lemma no_control_escape: "\<forall>c\<in>set (escape_char x). 32 \<le> (of_char c :: nat)"
proof -
  have "\<forall>d\<in>set [0..<16]. 32 \<le> (of_char (digit_char d) :: nat)"
    by code_simp
  then have "d < 16 \<Longrightarrow> 32 \<le> (of_char (digit_char d) :: nat)" for d
    by simp
  then have "32 \<le> (of_char (digit_char (of_char x div 16)) :: nat)"
    "32 \<le> (of_char (digit_char (of_char x mod 16)) :: nat)" if "(of_char x :: nat) < 32"
    using that by simp_all
  then show ?thesis
    by (auto simp: escape_char_def)
qed

lemma no_control_str_nat: "\<forall>c\<in>set (str_nat n). 32 \<le> (of_char c :: nat)"
  using str_nat_digits [of n] by (auto simp: is_digit_def)

lemma no_control_dumps:
  "no_float v \<longrightarrow> (\<forall>c\<in>set (json_dumps v). 32 \<le> (of_char c :: nat))"
  "no_float_items xs \<longrightarrow> (\<forall>c\<in>set (dumps_items xs). 32 \<le> (of_char c :: nat))"
  "no_float_members kvs \<longrightarrow> (\<forall>c\<in>set (dumps_members kvs). 32 \<le> (of_char c :: nat))"
proof (induction v and xs and kvs rule: json_dumps_dumps_items_dumps_members.induct)
  case (3 i)
  from no_control_str_nat [of "nat i"] no_control_str_nat [of "nat (- i)"] show ?case
    by (auto simp: str_int_def)
qed (use no_control_escape in \<open>auto simp: encode_string_def\<close>)

text \<open>
  C6. For every event record \<open>scan_once\<close> builds (every timestamp, host name, process
  entry and signature): the text \<open>json.dumps\<close> gives for it holds no line break, so
  with the newline appended it is one line of the log; stripping that line and
  decoding it, as \<open>load_events\<close> does, gives back the record itself, every field with
  the value it was written with.
\<close>

theorem record_roundtrip:
  "CHR 0x0A \<notin> set (json_dumps (event ts hostname info sig)) \<and>
   CHR 0x0D \<notin> set (json_dumps (event ts hostname info sig)) \<and>
   record_line (event ts hostname info sig) = json_dumps (event ts hostname info sig) @ [CHR 0x0A] \<and>
   json_loads (strip (record_line (event ts hostname info sig))) = Some (event ts hostname info sig) \<and>
   read_lines (loads_of json_loads) [Text (record_line (event ts hostname info sig))] =
     Inr [event ts hostname info sig]"
proof -
  let ?ev = "event ts hostname info sig"
  obtain kvs where kvs: "?ev = JObj kvs"
    by (simp add: event_def)
  have rt: "json_loads (json_dumps ?ev) = Some ?ev"
    by (rule json_loads_dumps [OF event_py_value event_no_float])
  have st: "strip (record_line ?ev) = json_dumps ?ev"
    unfolding kvs by (rule strip_object_line)
  have ne: "json_dumps ?ev \<noteq> []"
    unfolding kvs by simp
  from no_control_dumps(1) [of ?ev] event_no_float [of ts hostname info sig]
  have ctl: "\<forall>c\<in>set (json_dumps ?ev). 32 \<le> (of_char c :: nat)"
    by blast
  have "CHR 0x0A \<notin> set (json_dumps ?ev)" "CHR 0x0D \<notin> set (json_dumps ?ev)"
    using ctl by fastforce+
  moreover from rt st ne have "read_lines (loads_of json_loads) [Text (record_line ?ev)] = Inr [?ev]"
    by (simp add: loads_of_def Let_def)
  ultimately show ?thesis
    using rt st by (simp add: record_line_def)
qed

end
